theory Spec2Isabelle
  imports Complex_Main
begin

section \<open>Errors\<close>

text \<open>
  Every \<open>throw new Error(msg)\<close> of the source is the value \<open>Error msg\<close>.
\<close>

datatype error = Error string

section \<open>Sign comparator (DPCHST)\<close>

text \<open>
  JavaScript numbers are binary64 floating-point values. They are modelled as real
  numbers with exact arithmetic: rounding, underflow, overflow, infinities and \<open>NaN\<close>
  are outside the model. The model agrees with the source on everything that is decided
  by comparing the given numbers and by indexing: which branch is taken, which slot is
  written, which error is raised. It does not give the digits the source computes: a
  quotient that is tiny but not zero in the model can round to zero in the source, and a
  sum that is exact in the model is rounded in the source. The statements that settle a
  claim below rest on comparisons, on indices and on which expression is stored in a
  slot, not on the digits of its value; the lemmas whose text begins with
  \<^emph>\<open>In exact arithmetic\<close> are facts of the formulas over the reals and say nothing
  about rounded results. Where the source would divide by zero or read beyond the end
  of an array, the value of the model is unspecified, and the theorems carry the
  hypotheses on the knots that exclude it. The result of \<open>dpchst\<close> is one of the
  integers 1, 0 and -1, as in the source.
\<close>

definition dpchst :: "real \<Rightarrow> real \<Rightarrow> int" where
  "dpchst arg1 arg2 =
     (if arg1 = 0 \<or> arg2 = 0 then 0
      else if arg1 > 0 then (if arg2 > 0 then 1 else - 1)
      else (if arg2 > 0 then - 1 else 1))"

section \<open>Binary search (lowerBound)\<close>

text \<open>
  The \<open>while (low < high)\<close> loop of \<open>lowerBound\<close>, with the two loop variables as
  arguments. \<open>Math.floor((low + high) / 2)\<close> on non-negative integers is \<open>div 2\<close>.
\<close>

function lowerBound_loop :: "real list \<Rightarrow> real \<Rightarrow> nat \<Rightarrow> nat \<Rightarrow> nat" where
  "lowerBound_loop arr v low high =
     (if low < high then
        (let mid = (low + high) div 2 in
         if arr ! mid < v then lowerBound_loop arr v (mid + 1) high
         else lowerBound_loop arr v low mid)
      else high)"
  by pat_completeness auto
termination
  by (relation "measure (\<lambda>(arr, v, low, high). high - low)") auto

declare lowerBound_loop.simps [simp del]

definition lowerBound :: "real list \<Rightarrow> real \<Rightarrow> nat" where
  "lowerBound arr v =
     (if length arr = 0 then 0 else lowerBound_loop arr v 0 (length arr))"

section \<open>Derivative estimator (DPCHIM)\<close>

text \<open>
  The loop \<open>for (let i = 1; i < n; ++i)\<close> that checks the knots: it stops with the
  error at the first index \<open>i\<close> with \<open>x[i] <= x[i - 1]\<close>, and yields nothing when it runs
  to the end. On real numbers the test fails exactly when the knot is above its
  predecessor. In the source the test is also false when one of the two numbers is
  \<open>NaN\<close>, so a knot array that holds \<open>NaN\<close> can run through the loop without an error;
  the model has no such array.
\<close>

function check_increasing :: "real list \<Rightarrow> nat \<Rightarrow> error option" where
  "check_increasing x i =
     (if i < length x then
        (if x ! i \<le> x ! (i - 1) then Some (Error ''x-array not strictly increasing'')
         else check_increasing x (i + 1))
      else None)"
  by pat_completeness auto
termination
  by (relation "measure (\<lambda>(x, i). length x - i)") auto

declare check_increasing.simps [simp del]

text \<open>
  The mutable locals of \<open>dpchim\<close> that live across the interior loop, and the result
  array \<open>d\<close>. The weights \<open>w1\<close> and \<open>w2\<close> are written before each use, so they are local to
  the place that uses them.
\<close>

record dstate =
  h1 :: real
  del1 :: real
  h2 :: real
  del2 :: real
  hsum :: real
  d :: "real list"

text \<open>
  Lines 47 to 60: the slope at the first knot from the locals of the first two
  intervals, by the non-centred three-point formula and its two adjustments. The
  weights, the estimate and the secants it is compared with are exact here and rounded
  in the source.
\<close>

definition first_slope :: "dstate \<Rightarrow> real" where
  "first_slope s =
     (let w1 = (h1 s + hsum s) / hsum s;
          w2 = - h1 s / hsum s;
          d0 = w1 * del1 s + w2 * del2 s
      in if dpchst d0 (del1 s) < 0 then 0
         else if dpchst (del1 s) (del2 s) < 0 then
           (let dmax = 3 * del1 s in if \<bar>d0\<bar> > \<bar>dmax\<bar> then dmax else d0)
         else d0)"

text \<open>
  Lines 40 to 60: the locals of the first two intervals and the slope at the first knot.
  \<open>new Array(n)\<close> has \<open>n\<close> empty slots; each of them is assigned before \<open>d\<close> is
  returned (slot 0 here, slots 1 to \<open>n - 2\<close> in the loop, slot \<open>n - 1\<close> after it), so the
  model starts from zeros.
\<close>

definition dpchim_first :: "real list \<Rightarrow> real list \<Rightarrow> dstate" where
  "dpchim_first x y =
     (let n = length x;
          h1 = x ! 1 - x ! 0;
          del1 = (y ! 1 - y ! 0) / h1;
          h2 = x ! 2 - x ! 1;
          del2 = (y ! 2 - y ! 1) / h2;
          hsum = h1 + h2;
          s = \<lparr>h1 = h1, del1 = del1, h2 = h2, del2 = del2, hsum = hsum,
               d = replicate n 0\<rparr>
      in s\<lparr>d := (d s)[0 := first_slope s]\<rparr>)"

text \<open>
  Lines 72 to 85: the slope at an interior knot from the current locals. The branch is
  chosen by the sign comparator on the two secants the locals hold; the quotient of the
  first branch is exact here and rounded in the source.
\<close>

definition interior_slope :: "dstate \<Rightarrow> real" where
  "interior_slope s =
     (if dpchst (del1 s) (del2 s) > 0 then
        (let hsumt3 = hsum s * 3;
             w1 = (hsum s + h1 s) / hsumt3;
             w2 = (hsum s + h2 s) / hsumt3;
             dmax = max \<bar>del1 s\<bar> \<bar>del2 s\<bar>;
             dmin = min \<bar>del1 s\<bar> \<bar>del2 s\<bar>;
             drat1 = del1 s / dmax;
             drat2 = del2 s / dmax
         in dmin / (w1 * drat1 + w2 * drat2))
      else 0)"

text \<open>
  Lines 64 to 70: from the second interior knot on, the locals move one interval to the
  right. The new width and the new secant are exact here and rounded in the source.
\<close>

definition advance :: "real list \<Rightarrow> real list \<Rightarrow> nat \<Rightarrow> dstate \<Rightarrow> dstate" where
  "advance x y i s =
     (if i > 1 then
        (let h1 = h2 s;
             h2 = x ! (i + 1) - x ! i;
             hsum = h1 + h2;
             del1 = del2 s;
             del2 = (y ! (i + 1) - y ! i) / h2
         in s\<lparr>h1 := h1, h2 := h2, hsum := hsum, del1 := del1, del2 := del2\<rparr>)
      else s)"

text \<open>
  The loop \<open>for (let i = 1; i < n - 1; ++i)\<close> over the interior knots.
\<close>

function dpchim_loop :: "real list \<Rightarrow> real list \<Rightarrow> nat \<Rightarrow> dstate \<Rightarrow> dstate" where
  "dpchim_loop x y i s =
     (if i + 1 < length x then
        (let s = advance x y i s
         in dpchim_loop x y (i + 1) (s\<lparr>d := (d s)[i := interior_slope s]\<rparr>))
      else s)"
  by pat_completeness auto
termination
  by (relation "measure (\<lambda>(x, y, i, s). length x - i)") auto

declare dpchim_loop.simps [simp del]

text \<open>
  Lines 89 to 101: the slope at the last knot from the locals the loop left, by the
  mirrored three-point formula and its two adjustments.
\<close>

definition last_slope :: "dstate \<Rightarrow> real" where
  "last_slope s =
     (let w1 = - h2 s / hsum s;
          w2 = (h2 s + hsum s) / hsum s;
          dn = w1 * del1 s + w2 * del2 s
      in if dpchst dn (del2 s) < 0 then 0
         else if dpchst (del1 s) (del2 s) < 0 then
           (let dmax = 3 * del2 s in if \<bar>dn\<bar> > \<bar>dmax\<bar> then dmax else dn)
         else dn)"

text \<open>
  Lines 88 to 103: \<open>d[n - 1]\<close> is assigned and \<open>d\<close> is returned.
\<close>

definition dpchim_last :: "nat \<Rightarrow> dstate \<Rightarrow> real list" where
  "dpchim_last n s = (d s)[n - 1 := last_slope s]"

definition dpchim :: "real list \<Rightarrow> real list \<Rightarrow> error + real list" where
  "dpchim x y =
     (if length x \<noteq> length y then Inl (Error ''input array lengths must match'')
      else
        (let n = length x in
         if n < 2 then Inl (Error ''number of data points less than two'')
         else
           (case check_increasing x 1 of
              Some e \<Rightarrow> Inl e
            | None \<Rightarrow>
                if n = 2 then
                  (let deriv = (y ! 1 - y ! 0) / (x ! 1 - x ! 0) in Inr [deriv, deriv])
                else Inr (dpchim_last n (dpchim_loop x y 1 (dpchim_first x y))))))"

section \<open>Piecewise evaluator\<close>

text \<open>
  The result array \<open>yI\<close> is created by \<open>new Array(xI.length)\<close>: a slot that is never
  assigned reads as \<open>undefined\<close>. A slot is \<open>None\<close> while it is unassigned and \<open>Some v\<close>
  once the number \<open>v\<close> has been stored in it.

  \<open>hermite x y m i v\<close> is the body of the arrow function of line 152 with the coefficients
  \<open>c\<close> and \<open>d\<close> of lines 141 to 144: the cubic of interval \<open>i\<close> at the abscissa \<open>v\<close>.
  The evaluator checks nothing: it reads \<open>y\<close> and \<open>m\<close> at the indices of \<open>x\<close> and divides by
  the width of the interval, so the statements about it assume that \<open>y\<close> and \<open>m\<close> are as
  long as \<open>x\<close> and that \<open>x\<close> is strictly increasing. The coefficients and the value of
  the cubic are exact here and rounded in the source: the theorems on the evaluator say
  which cubic is stored in which slot, not which digits it has.
\<close>

definition hermite :: "real list \<Rightarrow> real list \<Rightarrow> real list \<Rightarrow> nat \<Rightarrow> real \<Rightarrow> real" where
  "hermite x y m i v =
     (let dX = x ! (i + 1) - x ! i;
          dY = y ! (i + 1) - y ! i;
          c = (dY / dX - m ! i) / dX;
          d = (m ! i + m ! (i + 1) - (2 * dY) / dX) / (dX * dX)
      in y ! i + (v - x ! i) * (m ! i + (v - x ! i) * (c + d * (v - x ! (i + 1)))))"

text \<open>
  \<open>Array.prototype.slice(l, r)\<close> for indices \<open>0 \<le> l\<close> and \<open>0 \<le> r\<close>: the elements from
  \<open>l\<close> up to but not including \<open>r\<close>, clipped at the end of the array, none when
  \<open>r \<le> l\<close>.
\<close>

definition slice :: "'a list \<Rightarrow> nat \<Rightarrow> nat \<Rightarrow> 'a list" where
  "slice xs l r = take (r - l) (drop l xs)"

text \<open>
  The loop \<open>for (let j = 0; j < yISubset.length; ++j)\<close> of lines 153 to 155. Every index
  \<open>j + leftIndex\<close> it writes is below the length of \<open>yI\<close>, because \<open>yISubset\<close> is as long as
  a slice of \<open>xI\<close> that starts at \<open>leftIndex\<close>.
\<close>

function store :: "real list \<Rightarrow> nat \<Rightarrow> nat \<Rightarrow> real option list \<Rightarrow> real option list" where
  "store yISubset leftIndex j yI =
     (if j < length yISubset then
        store yISubset leftIndex (j + 1) (yI[j + leftIndex := Some (yISubset ! j)])
      else yI)"
  by pat_completeness auto
termination
  by (relation "measure (\<lambda>(yISubset, leftIndex, j, yI). length yISubset - j)") auto

declare store.simps [simp del]

text \<open>
  One pass of the loop over the intervals, lines 141 to 155. \<open>xI[rightIndex]\<close> is
  \<open>undefined\<close>, and so different from every number, when \<open>rightIndex\<close> is the length of
  \<open>xI\<close>.
\<close>

definition interval_pass ::
  "real list \<Rightarrow> real list \<Rightarrow> real list \<Rightarrow> real list \<Rightarrow> nat \<Rightarrow> real option list \<Rightarrow> real option list" where
  "interval_pass x y m xI i yI =
     (let leftIndex = lowerBound xI (x ! i);
          rightIndex = lowerBound xI (x ! (i + 1));
          rightIndex =
            (if i + 2 = length x \<and> rightIndex < length xI \<and> xI ! rightIndex = x ! (i + 1)
             then rightIndex + 1 else rightIndex);
          xISubset = slice xI leftIndex rightIndex;
          yISubset = map (hermite x y m i) xISubset
      in store yISubset leftIndex 0 yI)"

text \<open>
  The loop \<open>for (let i = 0; i < x.length - 1; ++i)\<close>.
\<close>

function piecewiseCubic_loop ::
  "real list \<Rightarrow> real list \<Rightarrow> real list \<Rightarrow> real list \<Rightarrow> nat \<Rightarrow> real option list \<Rightarrow> real option list" where
  "piecewiseCubic_loop x y m xI i yI =
     (if i + 1 < length x then
        piecewiseCubic_loop x y m xI (i + 1) (interval_pass x y m xI i yI)
      else yI)"
  by pat_completeness auto
termination
  by (relation "measure (\<lambda>(x, y, m, xI, i, yI). length x - i)") auto

declare piecewiseCubic_loop.simps [simp del]

definition piecewiseCubic ::
  "real list \<Rightarrow> real list \<Rightarrow> real list \<Rightarrow> real list \<Rightarrow> real option list" where
  "piecewiseCubic x y m xI =
     piecewiseCubic_loop x y m xI 0 (replicate (length xI) None)"

section \<open>Convenience wrapper and interpolant object\<close>

definition pchip :: "real list \<Rightarrow> real list \<Rightarrow> real list \<Rightarrow> error + real option list" where
  "pchip x y xI =
     (case dpchim x y of
        Inl e \<Rightarrow> Inl e
      | Inr deriv \<Rightarrow> Inr (piecewiseCubic x y deriv xI))"

text \<open>
  The class \<open>Pchip\<close>: its three private fields, its constructor and its method.
\<close>

record Pchip =
  x_of :: "real list"
  y_of :: "real list"
  deriv_of :: "real list"

definition new_Pchip :: "real list \<Rightarrow> real list \<Rightarrow> error + Pchip" where
  "new_Pchip x y =
     (case dpchim x y of
        Inl e \<Rightarrow> Inl e
      | Inr deriv \<Rightarrow> Inr \<lparr>x_of = x, y_of = y, deriv_of = deriv\<rparr>)"

text \<open>
  A query argument is a number or an array of numbers; the result of \<open>evaluate\<close> is one
  slot of the result array or the whole array.
\<close>

datatype query = Scalar real | Sequence "real list"

datatype answer = ScalarResult "real option" | SequenceResult "real option list"

definition evaluate :: "Pchip \<Rightarrow> query \<Rightarrow> answer" where
  "evaluate p xI =
     (case xI of
        Sequence qs \<Rightarrow> SequenceResult (piecewiseCubic (x_of p) (y_of p) (deriv_of p) qs)
      | Scalar q \<Rightarrow>
          (case piecewiseCubic (x_of p) (y_of p) (deriv_of p) [q] of
             [] \<Rightarrow> ScalarResult None
           | r # _ \<Rightarrow> ScalarResult r))"

section \<open>Notions of the statements\<close>

text \<open>
  The secant slope of interval \<open>i\<close>, as the glossary of the specification defines it.
\<close>

definition secant :: "real list \<Rightarrow> real list \<Rightarrow> nat \<Rightarrow> real" where
  "secant x y i = (y ! (i + 1) - y ! i) / (x ! (i + 1) - x ! i)"

text \<open>
  The locals of \<open>dpchim\<close> that belong to the interior knot \<open>j\<close>: the widths and secant
  slopes of the two intervals that flank it. The proofs show that the loop holds exactly
  these values when it computes the slope at knot \<open>j\<close>.
\<close>

definition knot_state :: "real list \<Rightarrow> real list \<Rightarrow> nat \<Rightarrow> real list \<Rightarrow> dstate" where
  "knot_state x y j dd =
     \<lparr>h1 = x ! j - x ! (j - 1), del1 = secant x y (j - 1),
      h2 = x ! (j + 1) - x ! j, del2 = secant x y j,
      hsum = (x ! j - x ! (j - 1)) + (x ! (j + 1) - x ! j), d = dd\<rparr>"

text \<open>
  The two bounds of the slice that the pass over interval \<open>i\<close> takes from the queries:
  the values of the locals \<open>leftIndex\<close> and \<open>rightIndex\<close> at line 151.
\<close>

definition leftIndex :: "real list \<Rightarrow> real list \<Rightarrow> nat \<Rightarrow> nat" where
  "leftIndex x xI i = lowerBound xI (x ! i)"

definition rightIndex :: "real list \<Rightarrow> real list \<Rightarrow> nat \<Rightarrow> nat" where
  "rightIndex x xI i =
     (let r = lowerBound xI (x ! (i + 1))
      in if i + 2 = length x \<and> r < length xI \<and> xI ! r = x ! (i + 1) then r + 1 else r)"

section \<open>Properties of the binary search\<close>

lemma lowerBound_loop_range:
  "low \<le> high \<Longrightarrow>
   low \<le> lowerBound_loop arr v low high \<and> lowerBound_loop arr v low high \<le> high"
proof (induction arr v low high rule: lowerBound_loop.induct)
  case (1 arr v low high)
  show ?case
  proof (cases "low < high")
    case False
    with "1.prems" have "low = high" by simp
    then show ?thesis by (simp add: lowerBound_loop.simps [of arr v high high])
  next
    case True
    define mid where "mid = (low + high) div 2"
    from True have mid: "low \<le> mid" "mid < high" by (simp_all add: mid_def)
    show ?thesis
    proof (cases "arr ! mid < v")
      case less: True
      have "mid + 1 \<le> high" using mid by simp
      from "1.IH"(1) [OF True mid_def less this] mid True less show ?thesis
        by (simp add: lowerBound_loop.simps [of arr v low high] mid_def [symmetric])
    next
      case geq: False
      have "low \<le> mid" using mid by simp
      from "1.IH"(2) [OF True mid_def geq this] mid True geq show ?thesis
        by (simp add: lowerBound_loop.simps [of arr v low high] mid_def [symmetric])
    qed
  qed
qed

lemma lowerBound_loop_sorted:
  assumes "sorted arr" "low \<le> high" "high \<le> length arr"
    and "\<forall>k<low. arr ! k < v"
    and "\<forall>k. high \<le> k \<and> k < length arr \<longrightarrow> v \<le> arr ! k"
  shows "(\<forall>k<lowerBound_loop arr v low high. arr ! k < v) \<and>
         (\<forall>k. lowerBound_loop arr v low high \<le> k \<and> k < length arr \<longrightarrow> v \<le> arr ! k)"
  using assms
proof (induction arr v low high rule: lowerBound_loop.induct)
  case (1 arr v low high)
  show ?case
  proof (cases "low < high")
    case False
    with "1.prems" have "low = high" by simp
    with "1.prems" show ?thesis by (simp add: lowerBound_loop.simps [of arr v high high])
  next
    case True
    define mid where "mid = (low + high) div 2"
    from True have mid: "low \<le> mid" "mid < high" by (simp_all add: mid_def)
    show ?thesis
    proof (cases "arr ! mid < v")
      case less: True
      have below: "\<forall>k<mid + 1. arr ! k < v"
      proof (intro allI impI)
        fix k assume "k < mid + 1"
        then have "k \<le> mid" by simp
        moreover have "mid < length arr" using mid "1.prems"(3) by simp
        ultimately have "arr ! k \<le> arr ! mid"
          using "1.prems"(1) by (simp add: sorted_iff_nth_mono)
        with less show "arr ! k < v" by simp
      qed
      have "mid + 1 \<le> high" using mid by simp
      from "1.IH"(1) [OF True mid_def less "1.prems"(1) this "1.prems"(3) below "1.prems"(5)]
        True less show ?thesis
        by (simp add: lowerBound_loop.simps [of arr v low high] mid_def [symmetric])
    next
      case geq: False
      have above: "\<forall>k. mid \<le> k \<and> k < length arr \<longrightarrow> v \<le> arr ! k"
      proof (intro allI impI)
        fix k assume k: "mid \<le> k \<and> k < length arr"
        then have "arr ! mid \<le> arr ! k"
          using "1.prems"(1) by (simp add: sorted_iff_nth_mono)
        with geq show "v \<le> arr ! k" by simp
      qed
      have "mid \<le> length arr" using mid "1.prems"(3) by simp
      from "1.IH"(2) [OF True mid_def geq "1.prems"(1) mid(1) this "1.prems"(4) above]
        True geq show ?thesis
        by (simp add: lowerBound_loop.simps [of arr v low high] mid_def [symmetric])
    qed
  qed
qed

lemma lowerBound_le_length: "lowerBound arr v \<le> length arr"
  using lowerBound_loop_range [of 0 "length arr" arr v] by (simp add: lowerBound_def)

lemma lowerBound_below: "sorted arr \<Longrightarrow> k < lowerBound arr v \<Longrightarrow> arr ! k < v"
  using lowerBound_loop_sorted [of arr 0 "length arr" v]
  by (simp add: lowerBound_def split: if_splits)

lemma lowerBound_above:
  "sorted arr \<Longrightarrow> lowerBound arr v \<le> k \<Longrightarrow> k < length arr \<Longrightarrow> v \<le> arr ! k"
  using lowerBound_loop_sorted [of arr 0 "length arr" v]
  by (simp add: lowerBound_def split: if_splits)

text \<open>
  Claim C10. On an array sorted in ascending order the binary search returns the smallest
  index whose element is not less than the value: the result is at most the length of
  the array, every element before it is less than the value, the element at it (when
  there is one) is not, and it is the length of the array when every element is less.
  \<open>lowerBound\<close> is a total function: the loop ends on every input.
\<close>

theorem lowerBound_correct:
  assumes "sorted arr"
  shows "lowerBound arr v \<le> length arr \<and>
         (\<forall>k<lowerBound arr v. arr ! k < v) \<and>
         (lowerBound arr v < length arr \<longrightarrow> \<not> arr ! lowerBound arr v < v) \<and>
         ((\<forall>k<length arr. arr ! k < v) \<longrightarrow> lowerBound arr v = length arr)"
proof -
  let ?r = "lowerBound arr v"
  have r: "?r \<le> length arr" by (rule lowerBound_le_length)
  have lt: "\<forall>k<?r. arr ! k < v" using assms lowerBound_below by blast
  have ge: "?r < length arr \<longrightarrow> \<not> arr ! ?r < v"
    using lowerBound_above [OF assms, of v ?r] by auto
  have "(\<forall>k<length arr. arr ! k < v) \<longrightarrow> ?r = length arr"
    using r ge by (auto simp: le_less)
  with r lt ge show ?thesis by blast
qed

theorem lowerBound_correct_witness:
  "sorted [1, 3, 3, 7 :: real] \<and> lowerBound [1, 3, 3, 7] 3 = 1 \<and> lowerBound [1, 3, 3, 7] 8 = 4"
proof -
  have s: "sorted [1, 3, 3, 7 :: real]" by simp
  have a: "lowerBound [1, 3, 3, 7] 3 = 1" by code_simp
  have b: "lowerBound [1, 3, 3, 7] 8 = 4" by code_simp
  from lowerBound_correct [OF s, of 3] s a b show ?thesis by simp
qed

section \<open>Input validation and the two-point case\<close>

lemma check_increasing_None:
  "check_increasing x i = None \<longleftrightarrow> (\<forall>k. i \<le> k \<and> k < length x \<longrightarrow> x ! (k - 1) < x ! k)"
proof (induction x i rule: check_increasing.induct)
  case (1 x i)
  show ?case
  proof (cases "i < length x")
    case False
    then show ?thesis by (simp add: check_increasing.simps [of x i])
  next
    case True
    show ?thesis
    proof (cases "x ! i \<le> x ! (i - 1)")
      case bad: True
      with True have "check_increasing x i \<noteq> None"
        by (simp add: check_increasing.simps [of x i])
      moreover from bad True have "\<not> (\<forall>k. i \<le> k \<and> k < length x \<longrightarrow> x ! (k - 1) < x ! k)"
        by (auto intro: exI [of _ i])
      ultimately show ?thesis by blast
    next
      case good: False
      have "(\<forall>k. i \<le> k \<and> k < length x \<longrightarrow> x ! (k - 1) < x ! k) \<longleftrightarrow>
            (\<forall>k. i + 1 \<le> k \<and> k < length x \<longrightarrow> x ! (k - 1) < x ! k)"
      proof
        assume "\<forall>k. i + 1 \<le> k \<and> k < length x \<longrightarrow> x ! (k - 1) < x ! k"
        then have "\<And>k. i < k \<Longrightarrow> k < length x \<Longrightarrow> x ! (k - 1) < x ! k" by simp
        moreover have "x ! (i - 1) < x ! i" using good by simp
        ultimately show "\<forall>k. i \<le> k \<and> k < length x \<longrightarrow> x ! (k - 1) < x ! k"
          by (metis le_neq_implies_less)
      qed simp
      with "1.IH" [OF True good] True good show ?thesis
        by (simp add: check_increasing.simps [of x i])
    qed
  qed
qed

lemma check_increasing_Some:
  "check_increasing x i = Some e \<Longrightarrow> e = Error ''x-array not strictly increasing''"
proof (induction x i rule: check_increasing.induct)
  case (1 x i)
  then show ?case
    by (simp add: check_increasing.simps [of x i] split: if_splits)
qed

lemma strictly_increasing_nth:
  "sorted_wrt (<) (x :: real list) \<longleftrightarrow> (\<forall>k. 1 \<le> k \<and> k < length x \<longrightarrow> x ! (k - 1) < x ! k)"
proof -
  have "sorted_wrt (<) x \<longleftrightarrow> (\<forall>i. Suc i < length x \<longrightarrow> x ! i < x ! Suc i)"
    by (rule sorted_wrt_iff_nth_Suc_transp) (simp add: transp_on_def)
  also have "\<dots> \<longleftrightarrow> (\<forall>k. 1 \<le> k \<and> k < length x \<longrightarrow> x ! (k - 1) < x ! k)"
  proof
    assume a: "\<forall>i. Suc i < length x \<longrightarrow> x ! i < x ! Suc i"
    show "\<forall>k. 1 \<le> k \<and> k < length x \<longrightarrow> x ! (k - 1) < x ! k"
    proof (intro allI impI)
      fix k assume "1 \<le> k \<and> k < length x"
      then obtain i where "k = Suc i" "Suc i < length x" by (cases k) auto
      with a show "x ! (k - 1) < x ! k" by simp
    qed
  next
    assume a: "\<forall>k. 1 \<le> k \<and> k < length x \<longrightarrow> x ! (k - 1) < x ! k"
    show "\<forall>i. Suc i < length x \<longrightarrow> x ! i < x ! Suc i"
    proof (intro allI impI)
      fix i assume "Suc i < length x"
      with a [rule_format, of "Suc i"] show "x ! i < x ! Suc i" by simp
    qed
  qed
  finally show ?thesis .
qed

lemma check_increasing_sorted: "check_increasing x 1 = None \<longleftrightarrow> sorted_wrt (<) x"
  by (simp add: check_increasing_None strictly_increasing_nth)

lemma length_advance: "length (d (advance x y i s)) = length (d s)"
  by (simp add: advance_def Let_def)

lemma length_dpchim_loop: "length (d (dpchim_loop x y i s)) = length (d s)"
proof (induction x y i s rule: dpchim_loop.induct)
  case (1 x y i s)
  show ?case
  proof (cases "i + 1 < length x")
    case True
    from "1.IH" [OF True refl] True show ?thesis
      by (simp add: dpchim_loop.simps [of x y i s] Let_def length_advance)
  next
    case False
    then show ?thesis by (simp add: dpchim_loop.simps [of x y i s])
  qed
qed

lemma length_dpchim_first: "length (d (dpchim_first x y)) = length x"
  by (simp add: dpchim_first_def Let_def)

lemma length_dpchim_last: "length (dpchim_last n s) = length (d s)"
  by (simp add: dpchim_last_def Let_def)

lemma dpchim_valid:
  assumes "length x = length y" "2 \<le> length x" "sorted_wrt (<) x"
  shows "dpchim x y =
           (if length x = 2 then
              Inr [(y ! 1 - y ! 0) / (x ! 1 - x ! 0), (y ! 1 - y ! 0) / (x ! 1 - x ! 0)]
            else Inr (dpchim_last (length x) (dpchim_loop x y 1 (dpchim_first x y))))"
proof -
  have "check_increasing x 1 = None" using assms(3) check_increasing_sorted by blast
  with assms(1,2) show ?thesis by (simp add: dpchim_def Let_def)
qed

lemma dpchim_invalid:
  assumes "length x \<noteq> length y \<or> length x < 2 \<or> \<not> sorted_wrt (<) x"
  shows "\<exists>msg. dpchim x y = Inl (Error msg)"
proof (cases "length x \<noteq> length y \<or> length x < 2")
  case True
  then show ?thesis by (auto simp: dpchim_def Let_def)
next
  case False
  with assms have "check_increasing x 1 \<noteq> None" using check_increasing_sorted by blast
  then obtain e where e: "check_increasing x 1 = Some e" by auto
  then have "e = Error ''x-array not strictly increasing''" by (rule check_increasing_Some)
  with e False show ?thesis by (simp add: dpchim_def Let_def)
qed

text \<open>
  Validation of knots that are real numbers. On such knots the derivative estimator
  returns its error exactly when the lengths of \<open>x\<close> and \<open>y\<close> differ, or there are fewer
  than two points, or \<open>x\<close> is not strictly increasing (equal neighbours included), and
  otherwise it returns one slope per knot. The lemma says nothing about a knot array
  that holds \<open>NaN\<close>: the source lets such an array pass the test of line 32, although it
  is not strictly increasing.
\<close>

lemma dpchim_validation:
  "((\<exists>msg. dpchim x y = Inl (Error msg)) \<longleftrightarrow>
      (length x \<noteq> length y \<or> length x < 2 \<or> \<not> sorted_wrt (<) x)) \<and>
   (\<forall>e. dpchim x y = Inl e \<longrightarrow> (\<exists>msg. e = Error msg)) \<and>
   (length x = length y \<and> 2 \<le> length x \<and> sorted_wrt (<) x \<longrightarrow>
      (\<exists>dd. dpchim x y = Inr dd \<and> length dd = length x))"
proof -
  have valid: "\<exists>dd. dpchim x y = Inr dd \<and> length dd = length x"
    if v: "length x = length y \<and> 2 \<le> length x \<and> sorted_wrt (<) x"
  proof -
    from v have eq: "dpchim x y =
           (if length x = 2 then
              Inr [(y ! 1 - y ! 0) / (x ! 1 - x ! 0), (y ! 1 - y ! 0) / (x ! 1 - x ! 0)]
            else Inr (dpchim_last (length x) (dpchim_loop x y 1 (dpchim_first x y))))"
      by (simp add: dpchim_valid)
    show ?thesis
      by (simp add: eq length_dpchim_last length_dpchim_loop length_dpchim_first)
  qed
  have iff: "(\<exists>msg. dpchim x y = Inl (Error msg)) \<longleftrightarrow>
      (length x \<noteq> length y \<or> length x < 2 \<or> \<not> sorted_wrt (<) x)"
  proof
    assume "\<exists>msg. dpchim x y = Inl (Error msg)"
    then show "length x \<noteq> length y \<or> length x < 2 \<or> \<not> sorted_wrt (<) x"
      using valid by fastforce
  qed (rule dpchim_invalid)
  have "\<forall>e. dpchim x y = Inl e \<longrightarrow> (\<exists>msg. e = Error msg)"
    using dpchim_invalid [of x y] valid by fastforce
  with iff valid show ?thesis by blast
qed

lemma dpchim_validation_examples:
  "dpchim [1, 2] [1, 2, 3] = Inl (Error ''input array lengths must match'') \<and>
   dpchim [1] [1] = Inl (Error ''number of data points less than two'') \<and>
   dpchim [2, 1, 3] [1, 2, 3] = Inl (Error ''x-array not strictly increasing'') \<and>
   dpchim [1, 1, 3] [1, 2, 3] = Inl (Error ''x-array not strictly increasing'') \<and>
   (\<exists>dd. dpchim [1, 2, 3, 4, 5] [1, 7, 11, 14, 28] = Inr dd \<and> length dd = 5)"
proof -
  have a: "dpchim [1, 2] [1, 2, 3] = Inl (Error ''input array lengths must match'')"
    by code_simp
  have b: "dpchim [1] [1] = Inl (Error ''number of data points less than two'')"
    by code_simp
  have c: "dpchim [2, 1, 3] [1, 2, 3] = Inl (Error ''x-array not strictly increasing'')"
    by code_simp
  have d: "dpchim [1, 1, 3] [1, 2, 3] = Inl (Error ''x-array not strictly increasing'')"
    by code_simp
  have "\<exists>dd. dpchim [1, 2, 3, 4, 5] [1, 7, 11, 14, 28] = Inr dd \<and> length dd = 5"
    using dpchim_validation [of "[1, 2, 3, 4, 5]" "[1, 7, 11, 14, 28]"]
    by (simp add: eval_nat_numeral)
  with a b c d show ?thesis by blast
qed

text \<open>
  Claim C8. For two knots with increasing abscissas the derivative estimator returns two
  slopes, both equal to the single secant slope.
\<close>

theorem dpchim_two_points:
  assumes "length x = 2" "length y = 2" "x ! 0 < x ! 1"
  shows "dpchim x y =
           Inr [(y ! 1 - y ! 0) / (x ! 1 - x ! 0), (y ! 1 - y ! 0) / (x ! 1 - x ! 0)]"
proof -
  from assms(1) obtain x0 x1 where x: "x = [x0, x1]"
    by (cases x; cases "tl x") auto
  with assms(3) have "sorted_wrt (<) x" by simp
  then have "check_increasing x 1 = None" using check_increasing_sorted by blast
  with assms(1,2) show ?thesis by (simp add: dpchim_def Let_def)
qed

theorem dpchim_two_points_witness:
  "dpchim [1, 3] [2, 8] = Inr [3, 3]"
  using dpchim_two_points [of "[1, 3]" "[2, 8]"] by simp

section \<open>The locals of the interior loop\<close>

lemma knot_state_d [simp]: "d (knot_state x y j dd) = dd"
  by (simp add: knot_state_def)

lemma knot_state_update [simp]: "(knot_state x y j dd)\<lparr>d := dd'\<rparr> = knot_state x y j dd'"
  by (simp add: knot_state_def)

lemma interior_slope_knot_state:
  "interior_slope (knot_state x y j dd) = interior_slope (knot_state x y j [])"
  by (simp add: interior_slope_def knot_state_def Let_def)

lemma last_slope_knot_state:
  "last_slope (knot_state x y j dd) = last_slope (knot_state x y j [])"
  by (simp add: last_slope_def knot_state_def Let_def)

lemma first_slope_knot_state:
  "first_slope (knot_state x y j dd) = first_slope (knot_state x y j [])"
  by (simp add: first_slope_def knot_state_def Let_def)

lemma dpchim_first_knot_state:
  "dpchim_first x y =
     knot_state x y 1 ((replicate (length x) 0)[0 := first_slope (knot_state x y 1 [])])"
proof -
  have pre: "\<lparr>h1 = x ! 1 - x ! 0, del1 = (y ! 1 - y ! 0) / (x ! 1 - x ! 0),
      h2 = x ! 2 - x ! 1, del2 = (y ! 2 - y ! 1) / (x ! 2 - x ! 1),
      hsum = (x ! 1 - x ! 0) + (x ! 2 - x ! 1), d = replicate (length x) 0\<rparr> =
    knot_state x y 1 (replicate (length x) 0)"
    by (simp add: knot_state_def secant_def numeral_2_eq_2)
  show ?thesis
    unfolding dpchim_first_def Let_def pre
    by (simp only: knot_state_d knot_state_update
        first_slope_knot_state [of x y 1 "replicate (length x) 0"])
qed

lemma advance_knot_state:
  assumes "1 \<le> i"
  shows "advance x y i (knot_state x y (max 1 (i - 1)) dd) = knot_state x y i dd"
proof (cases "1 < i")
  case True
  then have "max 1 (i - 1) = i - 1" "i - 1 + 1 = i" by simp_all
  with True show ?thesis
    by (simp add: advance_def knot_state_def secant_def Let_def)
next
  case False
  with assms have "i = 1" by simp
  then show ?thesis by (simp add: advance_def)
qed

lemma dpchim_loop_step:
  assumes "1 \<le> i" "i + 1 < length x"
  shows "dpchim_loop x y i (knot_state x y (max 1 (i - 1)) dd) =
         dpchim_loop x y (i + 1)
           (knot_state x y (max 1 (i + 1 - 1)) (dd[i := interior_slope (knot_state x y i [])]))"
proof -
  have adv: "advance x y i (knot_state x y (max 1 (i - 1)) dd) = knot_state x y i dd"
    by (rule advance_knot_state [OF assms(1)])
  have m: "max 1 (i + 1 - 1) = i" using assms(1) by simp
  have "dpchim_loop x y i (knot_state x y (max 1 (i - 1)) dd) =
        dpchim_loop x y (i + 1)
          ((knot_state x y i dd)
             \<lparr>d := (d (knot_state x y i dd))[i := interior_slope (knot_state x y i dd)]\<rparr>)"
    by (subst dpchim_loop.simps) (simp only: assms(2) if_True Let_def adv)
  also have "\<dots> = dpchim_loop x y (i + 1)
      (knot_state x y i (dd[i := interior_slope (knot_state x y i [])]))"
    by (simp only: knot_state_d knot_state_update interior_slope_knot_state [of x y i dd])
  finally show ?thesis by (simp only: m)
qed

lemma dpchim_loop_stop: "\<not> i + 1 < length x \<Longrightarrow> dpchim_loop x y i s = s"
  by (subst dpchim_loop.simps) simp

lemma dpchim_loop_run:
  assumes "1 \<le> i" "i + 1 < length x"
  shows "\<exists>dd'. dpchim_loop x y i (knot_state x y (max 1 (i - 1)) dd) =
               knot_state x y (length x - 2) dd' \<and>
             length dd' = length dd \<and>
             (\<forall>k<length dd. dd' ! k =
                (if i \<le> k \<and> k + 1 < length x then interior_slope (knot_state x y k [])
                 else dd ! k))"
  using assms
proof (induction "length x - i" arbitrary: i dd)
  case 0
  then show ?case by simp
next
  case (Suc c)
  let ?dd = "dd[i := interior_slope (knot_state x y i [])]"
  have step: "dpchim_loop x y i (knot_state x y (max 1 (i - 1)) dd) =
         dpchim_loop x y (i + 1) (knot_state x y (max 1 (i + 1 - 1)) ?dd)"
    using Suc.prems by (rule dpchim_loop_step)
  show ?case
  proof (cases "i + 1 + 1 < length x")
    case True
    have "c = length x - (i + 1)" using Suc.hyps(2) by simp
    from Suc.hyps(1) [OF this _ True, of ?dd]
    obtain dd' where dd': "dpchim_loop x y (i + 1) (knot_state x y (max 1 (i + 1 - 1)) ?dd) =
               knot_state x y (length x - 2) dd'" "length dd' = length ?dd"
             "\<forall>k<length ?dd. dd' ! k =
                (if i + 1 \<le> k \<and> k + 1 < length x then interior_slope (knot_state x y k [])
                 else ?dd ! k)"
      by auto
    have "\<forall>k<length dd. dd' ! k =
                (if i \<le> k \<and> k + 1 < length x then interior_slope (knot_state x y k [])
                 else dd ! k)"
    proof (intro allI impI)
      fix k assume k: "k < length dd"
      show "dd' ! k = (if i \<le> k \<and> k + 1 < length x then interior_slope (knot_state x y k [])
                 else dd ! k)"
      proof (cases "k = i")
        case True
        with k dd'(3) Suc.prems show ?thesis by simp
      next
        case False
        with k dd'(3) show ?thesis by auto
      qed
    qed
    with dd'(1,2) step show ?thesis by (intro exI [of _ dd']) simp
  next
    case False
    with Suc.prems have i: "i = length x - 2" by simp
    have "max 1 (i + 1 - 1) = i" using Suc.prems(1) by simp
    from False have "dpchim_loop x y (i + 1) (knot_state x y i ?dd) = knot_state x y i ?dd"
      by (rule dpchim_loop_stop)
    then have "dpchim_loop x y (i + 1) (knot_state x y (max 1 (i + 1 - 1)) ?dd) =
        knot_state x y i ?dd"
      by (simp only: \<open>max 1 (i + 1 - 1) = i\<close>)
    moreover have "\<forall>k<length dd. ?dd ! k =
                (if i \<le> k \<and> k + 1 < length x then interior_slope (knot_state x y k [])
                 else dd ! k)"
      using i Suc.prems by (auto simp: nth_list_update)
    ultimately show ?thesis using step i by (intro exI [of _ ?dd]) simp
  qed
qed

text \<open>
  The slopes of a valid knot sequence of three or more points, slot by slot.
\<close>

lemma dpchim_slopes:
  assumes "length x = length y" "3 \<le> length x" "sorted_wrt (<) x"
  shows "\<exists>dd. dpchim x y = Inr dd \<and> length dd = length x \<and>
           dd ! 0 = first_slope (knot_state x y (Suc 0) []) \<and>
           (\<forall>k. 1 \<le> k \<and> k + 1 < length x \<longrightarrow> dd ! k = interior_slope (knot_state x y k [])) \<and>
           dd ! (length x - 1) = last_slope (knot_state x y (length x - 2) [])"
proof -
  let ?n = "length x"
  let ?d0 = "(replicate ?n 0)[0 := first_slope (knot_state x y 1 [])]"
  have eq: "dpchim x y = Inr (dpchim_last ?n (dpchim_loop x y 1 (dpchim_first x y)))"
    using assms by (simp add: dpchim_valid)
  have first: "dpchim_first x y = knot_state x y (max 1 (1 - 1)) ?d0"
    by (simp add: dpchim_first_knot_state)
  have "1 + 1 < ?n" using assms(2) by simp
  from dpchim_loop_run [OF order_refl this, of y ?d0]
  obtain dd' where dd': "dpchim_loop x y 1 (dpchim_first x y) = knot_state x y (?n - 2) dd'"
      "length dd' = ?n"
      "\<forall>k<?n. dd' ! k =
         (if 1 \<le> k \<and> k + 1 < ?n then interior_slope (knot_state x y k []) else ?d0 ! k)"
    unfolding first by auto
  let ?dd = "dd'[?n - 1 := last_slope (knot_state x y (?n - 2) [])]"
  have res: "dpchim x y = Inr ?dd"
    unfolding eq dd'(1) dpchim_last_def
    by (simp only: knot_state_d last_slope_knot_state [of x y _ dd'])
  have len: "length ?dd = ?n" by (simp add: dd'(2))
  have zero: "?dd ! 0 = first_slope (knot_state x y (Suc 0) [])"
  proof -
    have "x \<noteq> []" using assms(2) by auto
    with dd'(3) [rule_format, of 0] assms(2) show ?thesis by simp
  qed
  have mid: "\<forall>k. 1 \<le> k \<and> k + 1 < ?n \<longrightarrow> ?dd ! k = interior_slope (knot_state x y k [])"
  proof (intro allI impI)
    fix k assume k: "1 \<le> k \<and> k + 1 < ?n"
    then have "k < ?n" "k \<noteq> ?n - 1" by linarith+
    with dd'(3) [rule_format, of k] k show "?dd ! k = interior_slope (knot_state x y k [])"
      by simp
  qed
  have last: "?dd ! (?n - 1) = last_slope (knot_state x y (?n - 2) [])"
    using dd'(2) assms(2) by simp
  from res len zero mid last show ?thesis by blast
qed

section \<open>Bounds on the three slope formulas\<close>

lemma butland_denominator:
  fixes a b :: real
  assumes "0 < p" "0 < q" "0 < a" "0 < b"
  shows "1 / 3 < (p + q + p) / ((p + q) * 3) * (a / max a b) +
                 (p + q + q) / ((p + q) * 3) * (b / max a b)"
proof -
  let ?w1 = "(p + q + p) / ((p + q) * 3)"
  let ?w2 = "(p + q + q) / ((p + q) * 3)"
  have w1: "1 / 3 < ?w1" using assms(1,2) by (simp add: field_simps)
  have w2: "1 / 3 < ?w2" using assms(1,2) by (simp add: field_simps)
  have w1p: "0 < ?w1" and w2p: "0 < ?w2" using w1 w2 by linarith+
  show ?thesis
  proof (cases "a \<le> b")
    case True
    then have m: "max a b = b" by simp
    have "0 < a / b" using assms(3,4) by (rule divide_pos_pos)
    with w1p have "0 < ?w1 * (a / b)" by (rule mult_pos_pos)
    moreover have "b / b = 1" using assms(4) by simp
    ultimately show ?thesis using w2 by (simp only: m)
  next
    case False
    then have m: "max a b = a" by simp
    have "0 < b / a" using assms(4,3) by (rule divide_pos_pos)
    with w2p have "0 < ?w2 * (b / a)" by (rule mult_pos_pos)
    moreover have "a / a = 1" using assms(3) by simp
    ultimately show ?thesis using w1 by (simp only: m)
  qed
qed

lemma butland_quotient:
  fixes m c :: real
  assumes "0 < m" "1 / 3 < c"
  shows "0 < m / c \<and> m / c < 3 * m"
proof -
  have c: "0 < c" using assms(2) by simp
  then have "0 < m / c" using assms(1) by simp
  moreover have "m < 3 * m * c" using assms by (simp add: field_simps)
  then have "m / c < 3 * m" using c by (simp add: field_simps)
  ultimately show ?thesis by simp
qed

lemma interior_slope_increasing:
  assumes "0 < h1 s" "0 < h2 s" "hsum s = h1 s + h2 s" "0 < del1 s" "0 < del2 s"
  shows "0 < interior_slope s \<and> interior_slope s < 3 * min (del1 s) (del2 s)"
proof -
  let ?c = "(h1 s + h2 s + h1 s) / ((h1 s + h2 s) * 3) * (del1 s / max (del1 s) (del2 s)) +
            (h1 s + h2 s + h2 s) / ((h1 s + h2 s) * 3) * (del2 s / max (del1 s) (del2 s))"
  have sign: "dpchst (del1 s) (del2 s) > 0" using assms(4,5) by (simp add: dpchst_def)
  have a: "\<bar>del1 s\<bar> = del1 s" "\<bar>del2 s\<bar> = del2 s" using assms(4,5) by simp_all
  have eq: "interior_slope s = min (del1 s) (del2 s) / ?c"
    unfolding interior_slope_def Let_def a assms(3) using sign by (simp only: if_True)
  have "1 / 3 < ?c" using assms(1,2,4,5) by (rule butland_denominator)
  moreover have "0 < min (del1 s) (del2 s)" using assms(4,5) by simp
  ultimately show ?thesis unfolding eq by (rule butland_quotient [rotated])
qed

lemma interior_slope_decreasing:
  assumes "0 < h1 s" "0 < h2 s" "hsum s = h1 s + h2 s" "del1 s < 0" "del2 s < 0"
  shows "interior_slope s < 0 \<and> - (3 * min \<bar>del1 s\<bar> \<bar>del2 s\<bar>) < interior_slope s"
proof -
  let ?M = "max (- del1 s) (- del2 s)"
  let ?w1 = "(h1 s + h2 s + h1 s) / ((h1 s + h2 s) * 3)"
  let ?w2 = "(h1 s + h2 s + h2 s) / ((h1 s + h2 s) * 3)"
  let ?c = "?w1 * (- del1 s / ?M) + ?w2 * (- del2 s / ?M)"
  have sign: "dpchst (del1 s) (del2 s) > 0" using assms(4,5) by (simp add: dpchst_def)
  have a: "\<bar>del1 s\<bar> = - del1 s" "\<bar>del2 s\<bar> = - del2 s" using assms(4,5) by simp_all
  have "interior_slope s =
      min (- del1 s) (- del2 s) / (?w1 * (del1 s / ?M) + ?w2 * (del2 s / ?M))"
    unfolding interior_slope_def Let_def a assms(3) using sign by (simp only: if_True)
  also have "?w1 * (del1 s / ?M) + ?w2 * (del2 s / ?M) = - ?c"
    by (simp only: minus_divide_left mult_minus_right minus_add_distrib minus_minus)
  finally have eq: "interior_slope s = - (min (- del1 s) (- del2 s) / ?c)"
    by (simp only: minus_divide_right)
  have "0 < - del1 s" "0 < - del2 s" using assms(4,5) by simp_all
  with assms(1,2) have "1 / 3 < ?c" by (rule butland_denominator)
  moreover have "0 < min (- del1 s) (- del2 s)" using assms(4,5) by simp
  ultimately have "0 < min (- del1 s) (- del2 s) / ?c \<and>
      min (- del1 s) (- del2 s) / ?c < 3 * min (- del1 s) (- del2 s)"
    by (rule butland_quotient [rotated])
  then show ?thesis unfolding eq a by simp
qed

lemma interior_slope_zero:
  "dpchst (del1 s) (del2 s) \<le> 0 \<Longrightarrow> interior_slope s = 0"
  by (simp add: interior_slope_def)

lemma first_slope_sign:
  "0 < del1 s \<Longrightarrow> 0 < del2 s \<Longrightarrow> 0 \<le> first_slope s"
  "del1 s < 0 \<Longrightarrow> del2 s < 0 \<Longrightarrow> first_slope s \<le> 0"
  by (auto simp: first_slope_def dpchst_def Let_def split: if_splits)

lemma last_slope_sign:
  "0 < del1 s \<Longrightarrow> 0 < del2 s \<Longrightarrow> 0 \<le> last_slope s"
  "del1 s < 0 \<Longrightarrow> del2 s < 0 \<Longrightarrow> last_slope s \<le> 0"
  by (auto simp: last_slope_def dpchst_def Let_def split: if_splits)

section \<open>Shape preservation of the computed slopes\<close>

lemma knot_state_locals:
  "h1 (knot_state x y j dd) = x ! j - x ! (j - 1)"
  "h2 (knot_state x y j dd) = x ! (j + 1) - x ! j"
  "hsum (knot_state x y j dd) = h1 (knot_state x y j dd) + h2 (knot_state x y j dd)"
  "del1 (knot_state x y j dd) = secant x y (j - 1)"
  "del2 (knot_state x y j dd) = secant x y j"
  by (simp_all add: knot_state_def)

lemma knot_state_widths:
  assumes "sorted_wrt (<) x" "1 \<le> j" "j + 1 < length x"
  shows "0 < h1 (knot_state x y j dd)" "0 < h2 (knot_state x y j dd)"
proof -
  have "x ! (j - 1) < x ! j" "x ! j < x ! (j + 1)"
    using assms by (simp_all add: sorted_wrt_iff_nth_less)
  then show "0 < h1 (knot_state x y j dd)" "0 < h2 (knot_state x y j dd)"
    by (simp_all add: knot_state_def)
qed

lemma secant_increasing:
  assumes "sorted_wrt (<) x" "sorted_wrt (<) y" "length x = length y" "i + 1 < length x"
  shows "0 < secant x y i"
proof -
  have "x ! i < x ! (i + 1)" "y ! i < y ! (i + 1)"
    using assms by (simp_all add: sorted_wrt_iff_nth_less)
  then show ?thesis by (simp add: secant_def)
qed

lemma secant_decreasing:
  assumes "sorted_wrt (<) x" "sorted_wrt (>) y" "length x = length y" "i + 1 < length x"
  shows "secant x y i < 0"
proof -
  have "x ! i < x ! (i + 1)" "y ! (i + 1) < y ! i"
    using assms by (simp_all add: sorted_wrt_iff_nth_less)
  then show ?thesis by (simp add: secant_def divide_neg_pos)
qed

text \<open>
  Claim C1. For a valid knot sequence of three or more points and an interior knot
  \<open>i\<close>: when the sign comparator reports a sign change between the two flanking secant
  slopes, or one of the two is exactly zero, the slope the derivative estimator returns
  at knot \<open>i\<close> is exactly zero.
\<close>

theorem interior_slope_forced_to_zero:
  assumes "length x = length y" "3 \<le> length x" "sorted_wrt (<) x"
    and "1 \<le> i" "i + 2 \<le> length x"
    and "dpchst (secant x y (i - 1)) (secant x y i) < 0 \<or>
         secant x y (i - 1) = 0 \<or> secant x y i = 0"
  shows "\<exists>dd. dpchim x y = Inr dd \<and> dd ! i = 0"
proof -
  from dpchim_slopes [OF assms(1-3)] obtain dd where
    dd: "dpchim x y = Inr dd"
      "\<forall>k. 1 \<le> k \<and> k + 1 < length x \<longrightarrow> dd ! k = interior_slope (knot_state x y k [])"
    by blast
  have "dpchst (secant x y (i - 1)) (secant x y i) \<le> 0"
    using assms(6) by (auto simp: dpchst_def split: if_splits)
  then have "interior_slope (knot_state x y i []) = 0"
    by (intro interior_slope_zero) (simp only: knot_state_locals)
  moreover have "dd ! i = interior_slope (knot_state x y i [])"
    using dd(2) assms(4,5) by simp
  ultimately show ?thesis using dd(1) by simp
qed

theorem interior_slope_forced_to_zero_witness:
  "(\<exists>dd. dpchim [1, 2, 3] [1, 3, 2] = Inr dd \<and> dd ! 1 = 0) \<and>
   dpchst (secant [1, 2, 3] [1, 3, 2] 0) (secant [1, 2, 3] [1, 3, 2] 1) < 0 \<and>
   (\<exists>dd. dpchim [1, 2, 3] [1, 1, 2] = Inr dd \<and> dd ! 1 = 0) \<and>
   secant [1, 2, 3] [1, 1, 2] 0 = 0"
proof -
  have s: "dpchst (secant [1, 2, 3] [1, 3, 2] (1 - 1)) (secant [1, 2, 3] [1, 3, 2] 1) < 0"
    by (simp add: secant_def dpchst_def)
  have a: "\<exists>dd. dpchim [1, 2, 3] [1, 3, 2] = Inr dd \<and> dd ! 1 = 0"
    by (rule interior_slope_forced_to_zero) (use s in simp_all)
  have z: "secant [1, 2, 3] [1, 1, 2] (1 - 1) = 0" by (simp add: secant_def)
  have b: "\<exists>dd. dpchim [1, 2, 3] [1, 1, 2] = Inr dd \<and> dd ! 1 = 0"
    by (rule interior_slope_forced_to_zero) (use z in simp_all)
  from s a z b show ?thesis by simp
qed

text \<open>
  \<^emph>\<open>In exact arithmetic\<close>, for a valid knot sequence and an interior knot \<open>i\<close> whose two
  flanking secant slopes are both nonzero and of the same sign, the value of the
  Brodlie-Butland formula at knot \<open>i\<close> is not zero, has the sign of the secants, and its
  magnitude is below three times the smaller of the two secant magnitudes. The source
  evaluates the formula in binary64 and rounds after each operation; the rounded slope
  can reach the bound or pass it, and can be zero or \<open>NaN\<close> when a secant underflows or
  overflows. The lemma does not cover the rounded slope.
\<close>

lemma interior_slope_bounded:
  assumes "length x = length y" "sorted_wrt (<) x" "1 \<le> i" "i + 2 \<le> length x"
    and "(0 < secant x y (i - 1) \<and> 0 < secant x y i) \<or>
         (secant x y (i - 1) < 0 \<and> secant x y i < 0)"
  shows "\<exists>dd. dpchim x y = Inr dd \<and>
           0 < \<bar>dd ! i\<bar> \<and>
           \<bar>dd ! i\<bar> < 3 * min \<bar>secant x y (i - 1)\<bar> \<bar>secant x y i\<bar> \<and>
           sgn (dd ! i) = sgn (secant x y i)"
proof -
  have n: "3 \<le> length x" using assms(3,4) by simp
  from dpchim_slopes [OF assms(1) n assms(2)] obtain dd where
    dd: "dpchim x y = Inr dd"
      "\<forall>k. 1 \<le> k \<and> k + 1 < length x \<longrightarrow> dd ! k = interior_slope (knot_state x y k [])"
    by blast
  let ?s = "knot_state x y i []"
  have i: "i + 1 < length x" using assms(4) by simp
  have eq: "dd ! i = interior_slope ?s" using dd(2) assms(3) i by simp
  have w: "0 < h1 ?s" "0 < h2 ?s" using assms(2,3) i by (rule knot_state_widths)+
  have h: "hsum ?s = h1 ?s + h2 ?s" by (rule knot_state_locals)
  from assms(5) have "0 < \<bar>dd ! i\<bar> \<and>
           \<bar>dd ! i\<bar> < 3 * min \<bar>secant x y (i - 1)\<bar> \<bar>secant x y i\<bar> \<and>
           sgn (dd ! i) = sgn (secant x y i)"
  proof
    assume pos: "0 < secant x y (i - 1) \<and> 0 < secant x y i"
    then have "0 < del1 ?s" "0 < del2 ?s" by (simp_all add: knot_state_locals)
    with w h have "0 < interior_slope ?s \<and> interior_slope ?s < 3 * min (del1 ?s) (del2 ?s)"
      by (rule interior_slope_increasing)
    with pos show ?thesis by (simp add: eq knot_state_locals)
  next
    assume neg: "secant x y (i - 1) < 0 \<and> secant x y i < 0"
    then have "del1 ?s < 0" "del2 ?s < 0" by (simp_all add: knot_state_locals)
    with w h have "interior_slope ?s < 0 \<and>
        - (3 * min \<bar>del1 ?s\<bar> \<bar>del2 ?s\<bar>) < interior_slope ?s"
      by (rule interior_slope_decreasing)
    with neg show ?thesis by (simp add: eq knot_state_locals)
  qed
  with dd(1) show ?thesis by blast
qed

lemma interior_slope_bounded_example:
  "dpchim [1, 2, 3, 4, 5] [1, 7, 11, 14, 28] = Inr [7, 24 / 5, 24 / 7, 84 / 17, 39 / 2] \<and>
   secant [1, 2, 3, 4, 5] [1, 7, 11, 14, 28] 0 = 6 \<and>
   secant [1, 2, 3, 4, 5] [1, 7, 11, 14, 28] 1 = 4 \<and>
   (\<exists>dd. dpchim [1, 2, 3, 4, 5] [1, 7, 11, 14, 28] = Inr dd \<and>
      0 < \<bar>dd ! 1\<bar> \<and> \<bar>dd ! 1\<bar> < 3 * 4 \<and> sgn (dd ! 1) = 1)"
proof -
  have v: "dpchim [1, 2, 3, 4, 5] [1, 7, 11, 14, 28] = Inr [7, 24 / 5, 24 / 7, 84 / 17, 39 / 2]"
    by code_simp
  have s0: "secant [1, 2, 3, 4, 5] [1, 7, 11, 14, 28] 0 = 6" by (simp add: secant_def)
  have s1: "secant [1, 2, 3, 4, 5] [1, 7, 11, 14, 28] 1 = 4" by (simp add: secant_def)
  have "\<exists>dd. dpchim [1, 2, 3, 4, 5] [1, 7, 11, 14, 28] = Inr dd \<and>
      0 < \<bar>dd ! 1\<bar> \<and> \<bar>dd ! 1\<bar> < 3 * 4 \<and> sgn (dd ! 1) = 1"
    using interior_slope_bounded [of "[1, 2, 3, 4, 5]" "[1, 7, 11, 14, 28]" 1] s0 s1
    by simp
  with v s0 s1 show ?thesis by blast
qed

text \<open>
  \<^emph>\<open>In exact arithmetic\<close>, for a valid knot sequence of three or more points whose
  ordinates are strictly monotonic, no slope has the sign opposite to the trend: all are
  non-negative when \<open>y\<close> increases and all are non-positive when \<open>y\<close> decreases. The proof
  uses that a secant of strictly monotonic data is not zero. In binary64 such a secant
  can round to zero; the sign comparator then reports zero in both guards of an end
  point, and the source keeps the raw three-point estimate, whatever its sign. The
  lemma does not cover that.
\<close>

lemma slopes_follow_trend:
  assumes "length x = length y" "3 \<le> length x" "sorted_wrt (<) x"
  shows "\<exists>dd. dpchim x y = Inr dd \<and> length dd = length x \<and>
           (sorted_wrt (<) y \<longrightarrow> (\<forall>k<length x. 0 \<le> dd ! k)) \<and>
           (sorted_wrt (>) y \<longrightarrow> (\<forall>k<length x. dd ! k \<le> 0))"
proof -
  let ?n = "length x"
  from dpchim_slopes [OF assms] obtain dd where
    dd: "dpchim x y = Inr dd" "length dd = ?n"
      "dd ! 0 = first_slope (knot_state x y (Suc 0) [])"
      "\<forall>k. 1 \<le> k \<and> k + 1 < ?n \<longrightarrow> dd ! k = interior_slope (knot_state x y k [])"
      "dd ! (?n - 1) = last_slope (knot_state x y (?n - 2) [])"
    by blast
  have cases: "k = 0 \<or> (1 \<le> k \<and> k + 1 < ?n) \<or> k = ?n - 1" if "k < ?n" for k
    using that by linarith
  have up: "0 \<le> dd ! k" if inc: "sorted_wrt (<) y" and k: "k < ?n" for k
  proof -
    have sec: "0 < secant x y j" if "j + 1 < ?n" for j
      using assms(3) inc assms(1) that by (rule secant_increasing)
    from cases [OF k] show ?thesis
    proof (elim disjE)
      assume "k = 0"
      moreover have "0 \<le> first_slope (knot_state x y (Suc 0) [])"
        using sec [of 0] sec [of 1] assms(2)
        by (intro first_slope_sign) (simp_all add: knot_state_locals)
      ultimately show ?thesis by (simp add: dd(3))
    next
      assume m: "1 \<le> k \<and> k + 1 < ?n"
      let ?s = "knot_state x y k []"
      have w: "0 < h1 ?s" "0 < h2 ?s" using assms(3) m by (simp_all add: knot_state_widths)
      have h: "hsum ?s = h1 ?s + h2 ?s" by (rule knot_state_locals)
      have "0 < del1 ?s" "0 < del2 ?s"
        using sec [of "k - 1"] sec [of k] m by (simp_all add: knot_state_locals)
      with w h have "0 < interior_slope ?s \<and> interior_slope ?s < 3 * min (del1 ?s) (del2 ?s)"
        by (rule interior_slope_increasing)
      with dd(4) m show ?thesis by simp
    next
      assume "k = ?n - 1"
      moreover have "0 \<le> last_slope (knot_state x y (?n - 2) [])"
        using sec [of "?n - 2 - 1"] sec [of "?n - 2"] assms(2)
        by (intro last_slope_sign) (simp_all add: knot_state_locals)
      ultimately show ?thesis using dd(5) by simp
    qed
  qed
  have down: "dd ! k \<le> 0" if dec: "sorted_wrt (>) y" and k: "k < ?n" for k
  proof -
    have sec: "secant x y j < 0" if "j + 1 < ?n" for j
      using assms(3) dec assms(1) that by (rule secant_decreasing)
    from cases [OF k] show ?thesis
    proof (elim disjE)
      assume "k = 0"
      moreover have "first_slope (knot_state x y (Suc 0) []) \<le> 0"
        using sec [of 0] sec [of 1] assms(2)
        by (intro first_slope_sign) (simp_all add: knot_state_locals)
      ultimately show ?thesis by (simp add: dd(3))
    next
      assume m: "1 \<le> k \<and> k + 1 < ?n"
      let ?s = "knot_state x y k []"
      have w: "0 < h1 ?s" "0 < h2 ?s" using assms(3) m by (simp_all add: knot_state_widths)
      have h: "hsum ?s = h1 ?s + h2 ?s" by (rule knot_state_locals)
      have "del1 ?s < 0" "del2 ?s < 0"
        using sec [of "k - 1"] sec [of k] m by (simp_all add: knot_state_locals)
      with w h have "interior_slope ?s < 0 \<and>
          - (3 * min \<bar>del1 ?s\<bar> \<bar>del2 ?s\<bar>) < interior_slope ?s"
        by (rule interior_slope_decreasing)
      with dd(4) m show ?thesis by simp
    next
      assume "k = ?n - 1"
      moreover have "last_slope (knot_state x y (?n - 2) []) \<le> 0"
        using sec [of "?n - 2 - 1"] sec [of "?n - 2"] assms(2)
        by (intro last_slope_sign) (simp_all add: knot_state_locals)
      ultimately show ?thesis using dd(5) by simp
    qed
  qed
  from dd(1,2) up down show ?thesis by blast
qed

lemma slopes_follow_trend_examples:
  "dpchim [1, 2, 4] [1, 2, 10] = Inr [0, 3 / 2, 6] \<and>
   dpchim [1, 2, 4] [10, 9, 1] = Inr [0, - (3 / 2), - 6] \<and>
   (\<exists>dd. dpchim [1, 2, 4] [1, 2, 10] = Inr dd \<and> (\<forall>k<3. 0 \<le> dd ! k)) \<and>
   (\<exists>dd. dpchim [1, 2, 4] [10, 9, 1] = Inr dd \<and> (\<forall>k<3. dd ! k \<le> 0))"
proof -
  have a: "dpchim [1, 2, 4] [1, 2, 10] = Inr [0, 3 / 2, 6]" by code_simp
  have b: "dpchim [1, 2, 4] [10, 9, 1] = Inr [0, - (3 / 2), - 6]" by code_simp
  have c: "\<exists>dd. dpchim [1, 2, 4] [1, 2, 10] = Inr dd \<and> (\<forall>k<3. 0 \<le> dd ! k)"
    using slopes_follow_trend [of "[1, 2, 4]" "[1, 2, 10]"]
    by (simp add: eval_nat_numeral) blast
  have d: "\<exists>dd. dpchim [1, 2, 4] [10, 9, 1] = Inr dd \<and> (\<forall>k<3. dd ! k \<le> 0)"
    using slopes_follow_trend [of "[1, 2, 4]" "[10, 9, 1]"]
    by (simp add: eval_nat_numeral) blast
  from a b c d show ?thesis by blast
qed

section \<open>The passes of the piecewise evaluator\<close>

lemma store_nth:
  assumes "k < length yI"
  shows "length (store ys l j yI) = length yI \<and>
         store ys l j yI ! k =
           (if l + j \<le> k \<and> k < l + length ys then Some (ys ! (k - l)) else yI ! k)"
  using assms
proof (induction ys l j yI rule: store.induct)
  case (1 ys l j yI)
  show ?case
  proof (cases "j < length ys")
    case False
    then show ?thesis by (auto simp: store.simps [of ys l j yI])
  next
    case True
    let ?yI = "yI[j + l := Some (ys ! j)]"
    have k: "k < length ?yI" using "1.prems" by simp
    have eq: "store ys l j yI = store ys l (j + 1) ?yI"
      using True by (simp add: store.simps [of ys l j yI])
    from "1.IH" [OF True k]
    have IH: "length (store ys l (j + 1) ?yI) = length yI"
      "store ys l (j + 1) ?yI ! k =
         (if l + (j + 1) \<le> k \<and> k < l + length ys then Some (ys ! (k - l)) else ?yI ! k)"
      by simp_all
    show ?thesis
    proof (cases "k = j + l")
      case True
      with IH "1.prems" \<open>j < length ys\<close> show ?thesis by (simp add: eq)
    next
      case False
      with IH "1.prems" show ?thesis by (auto simp: eq)
    qed
  qed
qed

lemma length_store: "length (store ys l j yI) = length yI"
proof (induction ys l j yI rule: store.induct)
  case (1 ys l j yI)
  then show ?case by (simp add: store.simps [of ys l j yI])
qed

lemma rightIndex_le_length: "rightIndex x xI i \<le> length xI"
  using lowerBound_le_length [of xI "x ! (i + 1)"] by (simp add: rightIndex_def Let_def)

lemma interval_pass_store:
  "interval_pass x y m xI i yI =
     store (map (hermite x y m i) (slice xI (leftIndex x xI i) (rightIndex x xI i)))
       (leftIndex x xI i) 0 yI"
  by (simp add: interval_pass_def leftIndex_def rightIndex_def Let_def)

lemma length_interval_pass: "length (interval_pass x y m xI i yI) = length yI"
  by (simp add: interval_pass_store length_store)

lemma interval_pass_nth:
  assumes "length yI = length xI" "k < length xI"
  shows "interval_pass x y m xI i yI ! k =
           (if leftIndex x xI i \<le> k \<and> k < rightIndex x xI i
            then Some (hermite x y m i (xI ! k)) else yI ! k)"
proof -
  let ?l = "leftIndex x xI i" and ?r = "rightIndex x xI i"
  let ?ys = "map (hermite x y m i) (slice xI ?l ?r)"
  have r: "?r \<le> length xI" by (rule rightIndex_le_length)
  have len: "length ?ys = min (?r - ?l) (length xI - ?l)" by (simp add: slice_def)
  have cover: "(?l + 0 \<le> k \<and> k < ?l + length ?ys) \<longleftrightarrow> (?l \<le> k \<and> k < ?r)"
    using r unfolding len by auto
  have val: "?ys ! (k - ?l) = hermite x y m i (xI ! k)" if "?l \<le> k" "k < ?r"
  proof -
    have "k - ?l < length (slice xI ?l ?r)" using that r by (simp add: slice_def)
    then have "?ys ! (k - ?l) = hermite x y m i (slice xI ?l ?r ! (k - ?l))" by simp
    also have "slice xI ?l ?r ! (k - ?l) = xI ! k"
      using that r by (simp add: slice_def)
    finally show ?thesis .
  qed
  have "k < length yI" using assms by simp
  from store_nth [OF this, of ?ys ?l 0]
  have "interval_pass x y m xI i yI ! k =
      (if ?l + 0 \<le> k \<and> k < ?l + length ?ys then Some (?ys ! (k - ?l)) else yI ! k)"
    by (simp only: interval_pass_store)
  then show ?thesis using val by (simp only: cover) simp
qed

lemma length_piecewiseCubic_loop:
  "length (piecewiseCubic_loop x y m xI i yI) = length yI"
proof (induction x y m xI i yI rule: piecewiseCubic_loop.induct)
  case (1 x y m xI i yI)
  then show ?case
    by (simp add: piecewiseCubic_loop.simps [of x y m xI i yI] length_interval_pass)
qed

lemma length_piecewiseCubic: "length (piecewiseCubic x y m xI) = length xI"
  by (simp add: piecewiseCubic_def length_piecewiseCubic_loop)

lemma piecewiseCubic_loop_untouched:
  assumes "length yI = length xI" "k < length xI"
    and "\<forall>j. i \<le> j \<and> j + 1 < length x \<longrightarrow> \<not> (leftIndex x xI j \<le> k \<and> k < rightIndex x xI j)"
  shows "piecewiseCubic_loop x y m xI i yI ! k = yI ! k"
  using assms
proof (induction x y m xI i yI rule: piecewiseCubic_loop.induct)
  case (1 x y m xI i yI)
  show ?case
  proof (cases "i + 1 < length x")
    case False
    then show ?thesis by (simp add: piecewiseCubic_loop.simps [of x y m xI i yI])
  next
    case True
    let ?yI = "interval_pass x y m xI i yI"
    have len: "length ?yI = length xI" using "1.prems"(1) by (simp add: length_interval_pass)
    have rest: "\<forall>j. i + 1 \<le> j \<and> j + 1 < length x \<longrightarrow>
        \<not> (leftIndex x xI j \<le> k \<and> k < rightIndex x xI j)"
      using "1.prems"(3) by simp
    have "\<not> (leftIndex x xI i \<le> k \<and> k < rightIndex x xI i)"
      using "1.prems"(3) True by simp
    then have here: "?yI ! k = yI ! k"
      using interval_pass_nth [OF "1.prems"(1,2), of x y m i] by auto
    have "piecewiseCubic_loop x y m xI i yI = piecewiseCubic_loop x y m xI (i + 1) ?yI"
      using True by (simp add: piecewiseCubic_loop.simps [of x y m xI i yI])
    also have "\<dots> ! k = ?yI ! k" using True len "1.prems"(2) rest by (rule "1.IH")
    finally show ?thesis using here by simp
  qed
qed

lemma piecewiseCubic_loop_assigned:
  assumes "length yI = length xI" "k < length xI" "i \<le> j" "j + 1 < length x"
    and "leftIndex x xI j \<le> k" "k < rightIndex x xI j"
    and "\<forall>j'. j < j' \<and> j' + 1 < length x \<longrightarrow>
           \<not> (leftIndex x xI j' \<le> k \<and> k < rightIndex x xI j')"
  shows "piecewiseCubic_loop x y m xI i yI ! k = Some (hermite x y m j (xI ! k))"
  using assms
proof (induction x y m xI i yI rule: piecewiseCubic_loop.induct)
  case (1 x y m xI i yI)
  have True: "i + 1 < length x" using "1.prems"(3,4) by simp
  let ?yI = "interval_pass x y m xI i yI"
  have len: "length ?yI = length xI" using "1.prems"(1) by (simp add: length_interval_pass)
  have eq: "piecewiseCubic_loop x y m xI i yI = piecewiseCubic_loop x y m xI (i + 1) ?yI"
    using True by (simp add: piecewiseCubic_loop.simps [of x y m xI i yI])
  show ?case
  proof (cases "i = j")
    case same: True
    have "\<forall>j'. i + 1 \<le> j' \<and> j' + 1 < length x \<longrightarrow>
        \<not> (leftIndex x xI j' \<le> k \<and> k < rightIndex x xI j')"
      using "1.prems"(7) same by simp
    with len "1.prems"(2) have "piecewiseCubic_loop x y m xI (i + 1) ?yI ! k = ?yI ! k"
      by (rule piecewiseCubic_loop_untouched)
    also have "\<dots> = Some (hermite x y m j (xI ! k))"
      using interval_pass_nth [OF "1.prems"(1,2), of x y m i] "1.prems"(5,6) same by simp
    finally show ?thesis by (simp only: eq)
  next
    case False
    with "1.prems"(3) have "i + 1 \<le> j" by simp
    with True len "1.prems"(2) have "piecewiseCubic_loop x y m xI (i + 1) ?yI ! k =
        Some (hermite x y m j (xI ! k))"
      using "1.prems"(4-7) by (rule "1.IH")
    then show ?thesis by (simp only: eq)
  qed
qed

section \<open>Sorted queries and the knot intervals\<close>

lemma lowerBound_less_iff:
  assumes "sorted xI" "k < length xI"
  shows "k < lowerBound xI a \<longleftrightarrow> xI ! k < a"
proof
  assume "k < lowerBound xI a"
  with assms(1) show "xI ! k < a" by (rule lowerBound_below)
next
  assume less: "xI ! k < a"
  show "k < lowerBound xI a"
  proof (rule ccontr)
    assume "\<not> k < lowerBound xI a"
    then have "lowerBound xI a \<le> k" by simp
    with assms have "a \<le> xI ! k" by (intro lowerBound_above)
    with less show False by simp
  qed
qed

lemma leftIndex_le_iff:
  assumes "sorted xI" "k < length xI"
  shows "leftIndex x xI i \<le> k \<longleftrightarrow> x ! i \<le> xI ! k"
  using lowerBound_less_iff [OF assms, of "x ! i"] by (auto simp: leftIndex_def)

lemma less_rightIndex_iff:
  assumes "sorted xI" "k < length xI"
  shows "k < rightIndex x xI i \<longleftrightarrow>
           xI ! k < x ! (i + 1) \<or>
           (i + 2 = length x \<and> k = lowerBound xI (x ! (i + 1)) \<and> xI ! k = x ! (i + 1))"
proof -
  let ?r = "lowerBound xI (x ! (i + 1))"
  have below: "k < ?r \<longleftrightarrow> xI ! k < x ! (i + 1)" using assms by (rule lowerBound_less_iff)
  show ?thesis
  proof (cases "i + 2 = length x \<and> ?r < length xI \<and> xI ! ?r = x ! (i + 1)")
    case True
    then have "rightIndex x xI i = ?r + 1" by (simp add: rightIndex_def Let_def)
    moreover have "k < ?r + 1 \<longleftrightarrow> k < ?r \<or> k = ?r" by auto
    ultimately show ?thesis using below True by auto
  next
    case False
    then have "rightIndex x xI i = ?r" by (auto simp: rightIndex_def Let_def)
    then show ?thesis using below False assms(2) by auto
  qed
qed

lemma knots_mono:
  assumes "sorted_wrt (<) x" "i \<le> j" "j < length x"
  shows "x ! i \<le> (x ! j :: real)"
proof (cases "i = j")
  case False
  with assms(2) have "i < j" by simp
  with assms(1,3) have "x ! i < x ! j" by (simp add: sorted_wrt_iff_nth_less)
  then show ?thesis by simp
qed simp

lemma piecewiseCubic_in_interval:
  assumes "sorted xI" "sorted_wrt (<) x" "k < length xI" "i + 1 < length x"
    and "x ! i \<le> xI ! k" "xI ! k < x ! (i + 1)"
  shows "piecewiseCubic x y m xI ! k = Some (hermite x y m i (xI ! k))"
proof -
  have l: "leftIndex x xI i \<le> k" using assms(1,3,5) by (simp add: leftIndex_le_iff)
  have r: "k < rightIndex x xI i" using assms(1,3,6) by (simp add: less_rightIndex_iff)
  have later: "\<forall>j'. i < j' \<and> j' + 1 < length x \<longrightarrow>
      \<not> (leftIndex x xI j' \<le> k \<and> k < rightIndex x xI j')"
  proof (intro allI impI)
    fix j' assume j': "i < j' \<and> j' + 1 < length x"
    then have "x ! (i + 1) \<le> x ! j'" using assms(2) by (intro knots_mono) simp_all
    with assms(6) have "\<not> x ! j' \<le> xI ! k" by simp
    then show "\<not> (leftIndex x xI j' \<le> k \<and> k < rightIndex x xI j')"
      using assms(1,3) by (simp add: leftIndex_le_iff)
  qed
  have "length (replicate (length xI) (None :: real option)) = length xI" by simp
  from piecewiseCubic_loop_assigned [OF this assms(3) le0 assms(4) l r later]
  show ?thesis by (simp only: piecewiseCubic_def)
qed

lemma piecewiseCubic_last_knot:
  assumes "sorted xI" "sorted_wrt (<) x" "k < length xI" "2 \<le> length x"
    and "xI ! k = x ! (length x - 1)" "\<forall>k'<k. xI ! k' < x ! (length x - 1)"
  shows "piecewiseCubic x y m xI ! k = Some (hermite x y m (length x - 2) (xI ! k))"
proof -
  let ?i = "length x - 2"
  have i: "?i + 1 < length x" "?i + 2 = length x" "?i + 1 = length x - 1"
    using assms(4) by simp_all
  have "x ! ?i \<le> x ! (length x - 1)" using assms(2,4) by (intro knots_mono) simp_all
  then have l: "leftIndex x xI ?i \<le> k" using assms(1,3,5) by (simp add: leftIndex_le_iff)
  have "\<not> k < lowerBound xI (x ! (length x - 1))"
    using lowerBound_less_iff [OF assms(1,3), of "x ! (length x - 1)"] assms(5) by simp
  moreover have "\<not> lowerBound xI (x ! (length x - 1)) < k"
  proof
    assume less: "lowerBound xI (x ! (length x - 1)) < k"
    with assms(6) have "xI ! lowerBound xI (x ! (length x - 1)) < x ! (length x - 1)" by simp
    moreover from less assms(3) have "lowerBound xI (x ! (length x - 1)) < length xI" by simp
    with assms(1) have "x ! (length x - 1) \<le> xI ! lowerBound xI (x ! (length x - 1))"
      by (intro lowerBound_above) simp_all
    ultimately show False by simp
  qed
  ultimately have "k = lowerBound xI (x ! (length x - 1))" by simp
  then have "k = lowerBound xI (x ! (?i + 1))" by (simp only: i(3))
  then have r: "k < rightIndex x xI ?i"
    using assms(1,3,5) i(2,3) less_rightIndex_iff [OF assms(1,3), of x ?i] by simp
  have later: "\<forall>j'. ?i < j' \<and> j' + 1 < length x \<longrightarrow>
      \<not> (leftIndex x xI j' \<le> k \<and> k < rightIndex x xI j')"
    by auto
  have "length (replicate (length xI) (None :: real option)) = length xI" by simp
  from piecewiseCubic_loop_assigned [OF this assms(3) le0 i(1) l r later]
  show ?thesis by (simp only: piecewiseCubic_def)
qed

lemma piecewiseCubic_outside:
  assumes "sorted xI" "sorted_wrt (<) x" "k < length xI" "2 \<le> length x"
    and "xI ! k < x ! 0 \<or> x ! (length x - 1) < xI ! k"
  shows "piecewiseCubic x y m xI ! k = None"
proof -
  have none: "\<forall>j. 0 \<le> j \<and> j + 1 < length x \<longrightarrow>
      \<not> (leftIndex x xI j \<le> k \<and> k < rightIndex x xI j)"
  proof (intro allI impI)
    fix j assume j: "0 \<le> j \<and> j + 1 < length x"
    from assms(5) show "\<not> (leftIndex x xI j \<le> k \<and> k < rightIndex x xI j)"
    proof
      assume low: "xI ! k < x ! 0"
      have "x ! 0 \<le> x ! j" using assms(2) j by (intro knots_mono) simp_all
      with low have "\<not> x ! j \<le> xI ! k" by simp
      then show ?thesis using assms(1,3) by (simp add: leftIndex_le_iff)
    next
      assume high: "x ! (length x - 1) < xI ! k"
      have "x ! (j + 1) \<le> x ! (length x - 1)" using assms(2) j by (intro knots_mono) simp_all
      with high have "x ! (j + 1) < xI ! k" by simp
      then have "\<not> k < rightIndex x xI j"
        using assms(1,3) by (simp add: less_rightIndex_iff)
      then show ?thesis by simp
    qed
  qed
  have "length (replicate (length xI) (None :: real option)) = length xI" by simp
  from piecewiseCubic_loop_untouched [OF this assms(3) none, of y m]
  show ?thesis using assms(3) by (simp add: piecewiseCubic_def)
qed

lemma hermite_left: "hermite x y m i (x ! i) = y ! i"
  by (simp add: hermite_def Let_def)

lemma hermite_right:
  assumes "x ! i \<noteq> x ! (i + 1)"
  shows "hermite x y m i (x ! (i + 1)) = y ! (i + 1)"
proof -
  let ?dX = "x ! (i + 1) - x ! i"
  let ?dY = "y ! (i + 1) - y ! i"
  have dX: "?dX \<noteq> 0" using assms by simp
  have "hermite x y m i (x ! (i + 1)) =
      y ! i + ?dX * (m ! i + ?dX * ((?dY / ?dX - m ! i) / ?dX))"
    by (simp add: hermite_def Let_def)
  also have "?dX * ((?dY / ?dX - m ! i) / ?dX) = ?dY / ?dX - m ! i"
    using dX by simp
  also have "y ! i + ?dX * (m ! i + (?dY / ?dX - m ! i)) = y ! i + ?dX * (?dY / ?dX)"
    by simp
  also have "\<dots> = y ! (i + 1)" using dX by simp
  finally show ?thesis .
qed

lemma interval_exists:
  fixes x :: "real list"
  assumes "2 \<le> length x" "x ! 0 \<le> q" "q < x ! (length x - 1)"
  shows "\<exists>i. i + 1 < length x \<and> x ! i \<le> q \<and> q < x ! (i + 1)"
proof -
  define j where "j = (LEAST j. q < x ! j)"
  have j: "q < x ! j" unfolding j_def using assms(3) by (rule LeastI)
  have jle: "j \<le> length x - 1" unfolding j_def using assms(3) by (rule Least_le)
  have "j \<noteq> 0" using j assms(2) by (cases "j = 0") auto
  then obtain i where i: "j = i + 1" by (cases j) auto
  have "\<not> q < x ! i"
  proof
    assume "q < x ! i"
    then have "j \<le> i" unfolding j_def by (rule Least_le)
    with i show False by simp
  qed
  with i j jle assms(1) show ?thesis by (intro exI [of _ i]) auto
qed

lemma piecewiseCubic_in_range:
  assumes "sorted xI" "sorted_wrt (<) x" "k < length xI" "2 \<le> length x"
    and "x ! 0 \<le> xI ! k" "xI ! k < x ! (length x - 1)"
  shows "\<exists>v. piecewiseCubic x y m xI ! k = Some v"
proof -
  from interval_exists [OF assms(4-6)] obtain i where
    "i + 1 < length x" "x ! i \<le> xI ! k" "xI ! k < x ! (i + 1)" by blast
  with assms(1-3) have "piecewiseCubic x y m xI ! k = Some (hermite x y m i (xI ! k))"
    by (rule piecewiseCubic_in_interval)
  then show ?thesis by blast
qed

lemma dpchim_Inr:
  assumes "dpchim x y = Inr dd"
  shows "length x = length y" "2 \<le> length x" "sorted_wrt (<) x" "length dd = length x"
proof -
  have v: "\<not> (length x \<noteq> length y \<or> length x < 2 \<or> \<not> sorted_wrt (<) x)"
    using dpchim_invalid [of x y] assms by auto
  then show a: "length x = length y" and b: "2 \<le> length x" and c: "sorted_wrt (<) x"
    by simp_all
  from dpchim_valid [OF a b c] assms
  show "length dd = length x"
    by (auto simp: length_dpchim_last length_dpchim_loop length_dpchim_first split: if_splits)
qed

section \<open>Queries outside the knots and unsorted queries\<close>

text \<open>
  Claim C4, as stated, fails: a query below the first knot or above the last one gets
  no value. For the knots \<open>(0, 0)\<close> and \<open>(1, 1)\<close> and the sorted queries \<open>-1\<close>, \<open>1/2\<close>
  and \<open>2\<close>, only the slot of \<open>1/2\<close> is assigned.
\<close>

theorem outside_queries_counterexample:
  "pchip [0, 1] [0, 1] [- 1, 1 / 2, 2] = Inr [None, Some (1 / 2), None]"
  by code_simp

text \<open>
  Claim C4, amended. For valid knots and slopes and a query sequence sorted in ascending
  order, the evaluator raises no error and returns one slot per query, and the slot of
  every query that lies outside the range from the first to the last knot is left
  unassigned: nothing is extrapolated.
\<close>

theorem outside_queries_unassigned:
  assumes "length y = length x" "length m = length x" "2 \<le> length x"
    and "sorted_wrt (<) x" "sorted xI"
  shows "length (piecewiseCubic x y m xI) = length xI \<and>
         (\<forall>k<length xI. xI ! k < x ! 0 \<or> x ! (length x - 1) < xI ! k \<longrightarrow>
            piecewiseCubic x y m xI ! k = None)"
  using assms piecewiseCubic_outside [of xI x _ y m]
  by (simp add: length_piecewiseCubic)

theorem outside_queries_unassigned_witness:
  "sorted [- 1, 1 / 2, 2 :: real] \<and>
   piecewiseCubic [0, 1] [0, 1] [1, 1] [- 1, 1 / 2, 2] ! 0 = None \<and>
   piecewiseCubic [0, 1] [0, 1] [1, 1] [- 1, 1 / 2, 2] ! 2 = None"
proof -
  have s: "sorted [- 1, 1 / 2, 2 :: real]" by simp
  have x: "sorted_wrt (<) [0, 1 :: real]" by simp
  from outside_queries_unassigned [of "[0, 1]" "[0, 1]" "[1, 1]" "[- 1, 1 / 2, 2]"] s x
  have "\<forall>k<3. [- 1, 1 / 2, 2 :: real] ! k < 0 \<or> 1 < [- 1, 1 / 2, 2 :: real] ! k \<longrightarrow>
      piecewiseCubic [0, 1] [0, 1] [1, 1] [- 1, 1 / 2, 2] ! k = None"
    by simp
  from this [rule_format, of 0] this [rule_format, of 2] s show ?thesis by simp
qed

text \<open>
  Claim C7, as stated, fails for unsorted queries. For the knots \<open>(0, 0)\<close>, \<open>(1, 1)\<close> and
  \<open>(2, 4)\<close> the slopes are 0, \<open>3/2\<close> and 4, and the query \<open>3/2\<close> lies in the second
  interval, whose cubic gives \<open>35/16\<close> there; this is the output when the queries are
  \<open>1/2\<close>, \<open>3/2\<close> in this order. For the queries \<open>3/2\<close>, \<open>1/2\<close> the first output is
  \<open>27/16\<close>, the cubic of the first interval.
\<close>

theorem unsorted_queries_counterexample:
  "pchip [0, 1, 2] [0, 1, 4] [3 / 2, 1 / 2] = Inr [Some (27 / 16), Some (5 / 16)] \<and>
   pchip [0, 1, 2] [0, 1, 4] [1 / 2, 3 / 2] = Inr [Some (5 / 16), Some (35 / 16)] \<and>
   dpchim [0, 1, 2] [0, 1, 4] = Inr [0, 3 / 2, 4] \<and>
   hermite [0, 1, 2] [0, 1, 4] [0, 3 / 2, 4] 1 (3 / 2) = 35 / 16"
proof -
  have "pchip [0, 1, 2] [0, 1, 4] [3 / 2, 1 / 2] = Inr [Some (27 / 16), Some (5 / 16)]"
    by code_simp
  moreover have "pchip [0, 1, 2] [0, 1, 4] [1 / 2, 3 / 2] = Inr [Some (5 / 16), Some (35 / 16)]"
    by code_simp
  moreover have "dpchim [0, 1, 2] [0, 1, 4] = Inr [0, 3 / 2, 4]"
    by code_simp
  moreover have "hermite [0, 1, 2] [0, 1, 4] [0, 3 / 2, 4] 1 (3 / 2) = 35 / 16"
    by code_simp
  ultimately show ?thesis by blast
qed

text \<open>
  Claim C7, amended. For valid knots and slopes the evaluator returns one slot per
  query, whatever the order of the queries. When the queries are sorted in ascending
  order, the output at index \<open>k\<close> is the value at query \<open>k\<close> of the cubic of the interval
  that holds the query, for every query from the first knot up to but not including
  the last knot, and for the first query that equals the last knot.
\<close>

theorem sorted_queries_in_order:
  assumes "length y = length x" "length m = length x" "2 \<le> length x"
    and "sorted_wrt (<) x"
  shows "length (piecewiseCubic x y m xI) = length xI \<and>
         (sorted xI \<longrightarrow>
            (\<forall>k<length xI. \<forall>i. i + 1 < length x \<and> x ! i \<le> xI ! k \<and> xI ! k < x ! (i + 1) \<longrightarrow>
               piecewiseCubic x y m xI ! k = Some (hermite x y m i (xI ! k))) \<and>
            (\<forall>k<length xI. xI ! k = x ! (length x - 1) \<and>
                 (\<forall>k'<k. xI ! k' < x ! (length x - 1)) \<longrightarrow>
               piecewiseCubic x y m xI ! k =
                 Some (hermite x y m (length x - 2) (xI ! k))))"
proof -
  have inner: "piecewiseCubic x y m xI ! k = Some (hermite x y m i (xI ! k))"
    if "sorted xI" "k < length xI" "i + 1 < length x \<and> x ! i \<le> xI ! k \<and> xI ! k < x ! (i + 1)"
    for k i
    using that assms(4) by (intro piecewiseCubic_in_interval) simp_all
  have last: "piecewiseCubic x y m xI ! k = Some (hermite x y m (length x - 2) (xI ! k))"
    if "sorted xI" "k < length xI"
      "xI ! k = x ! (length x - 1) \<and> (\<forall>k'<k. xI ! k' < x ! (length x - 1))"
    for k
    using that assms(3,4) by (intro piecewiseCubic_last_knot) simp_all
  from inner last show ?thesis by (simp add: length_piecewiseCubic)
qed

theorem sorted_queries_in_order_witness:
  "sorted [1 / 2, 3 / 2, 2 :: real] \<and>
   piecewiseCubic [0, 1, 2] [0, 1, 4] [0, 3 / 2, 4] [1 / 2, 3 / 2, 2] ! 1 =
     Some (hermite [0, 1, 2] [0, 1, 4] [0, 3 / 2, 4] 1 (3 / 2)) \<and>
   piecewiseCubic [0, 1, 2] [0, 1, 4] [0, 3 / 2, 4] [1 / 2, 3 / 2, 2] ! 2 =
     Some (hermite [0, 1, 2] [0, 1, 4] [0, 3 / 2, 4] 1 2) \<and>
   piecewiseCubic [0, 1, 2] [0, 1, 4] [0, 3 / 2, 4] [1 / 2, 3 / 2, 2] =
     [Some (5 / 16), Some (35 / 16), Some 4]"
proof -
  let ?x = "[0, 1, 2 :: real]" and ?y = "[0, 1, 4 :: real]" and ?m = "[0, 3 / 2, 4 :: real]"
  let ?q = "[1 / 2, 3 / 2, 2 :: real]"
  have s: "sorted ?q" by simp
  have v: "piecewiseCubic ?x ?y ?m ?q = [Some (5 / 16), Some (35 / 16), Some 4]"
    by code_simp
  have t: "length (piecewiseCubic ?x ?y ?m ?q) = length ?q \<and>
         (sorted ?q \<longrightarrow>
            (\<forall>k<length ?q. \<forall>i. i + 1 < length ?x \<and> ?x ! i \<le> ?q ! k \<and> ?q ! k < ?x ! (i + 1) \<longrightarrow>
               piecewiseCubic ?x ?y ?m ?q ! k = Some (hermite ?x ?y ?m i (?q ! k))) \<and>
            (\<forall>k<length ?q. ?q ! k = ?x ! (length ?x - 1) \<and>
                 (\<forall>k'<k. ?q ! k' < ?x ! (length ?x - 1)) \<longrightarrow>
               piecewiseCubic ?x ?y ?m ?q ! k =
                 Some (hermite ?x ?y ?m (length ?x - 2) (?q ! k))))"
    by (rule sorted_queries_in_order) simp_all
  from t s have "\<forall>k<length ?q. \<forall>i. i + 1 < length ?x \<and> ?x ! i \<le> ?q ! k \<and> ?q ! k < ?x ! (i + 1) \<longrightarrow>
               piecewiseCubic ?x ?y ?m ?q ! k = Some (hermite ?x ?y ?m i (?q ! k))"
    by blast
  from this [rule_format, of 1 1]
  have a: "piecewiseCubic ?x ?y ?m ?q ! 1 = Some (hermite ?x ?y ?m 1 (?q ! 1))"
    by simp
  from t s have "?q ! 2 = ?x ! (length ?x - 1) \<and> (\<forall>k'<2. ?q ! k' < ?x ! (length ?x - 1)) \<longrightarrow>
      piecewiseCubic ?x ?y ?m ?q ! 2 = Some (hermite ?x ?y ?m (length ?x - 2) (?q ! 2))"
    by simp
  moreover have "\<forall>k'<2. ?q ! k' < ?x ! (length ?x - 1)"
    by (simp add: less_Suc_eq numeral_2_eq_2)
  ultimately have b: "piecewiseCubic ?x ?y ?m ?q ! 2 = Some (hermite ?x ?y ?m 1 2)"
    by (simp add: numeral_2_eq_2)
  from a b s v show ?thesis by simp
qed

section \<open>The knots and the two paths of evaluate\<close>

lemma singleton_nth: "length l = 1 \<Longrightarrow> l = [l ! 0]"
  by (cases l) auto

lemma piecewiseCubic_at_knot:
  assumes "sorted_wrt (<) x" "2 \<le> length x" "k < length x"
  shows "piecewiseCubic x y m [x ! k] = [Some (y ! k)]"
proof -
  let ?r = "piecewiseCubic x y m [x ! k]"
  have len: "length ?r = 1" by (simp add: length_piecewiseCubic)
  have "?r ! 0 = Some (y ! k)"
  proof (cases "k + 1 < length x")
    case True
    have "x ! k < x ! (k + 1)" using assms(1) True by (simp add: sorted_wrt_iff_nth_less)
    with assms(1) True have "?r ! 0 = Some (hermite x y m k ([x ! k] ! 0))"
      by (intro piecewiseCubic_in_interval) simp_all
    then show ?thesis by (simp add: hermite_left)
  next
    case False
    with assms(3) have k: "k = length x - 1" by simp
    let ?i = "length x - 2"
    have i: "?i + 1 = length x - 1" using assms(2) by simp
    have "x ! ?i < x ! (?i + 1)" using assms(1,2) by (simp add: sorted_wrt_iff_nth_less)
    then have "hermite x y m ?i (x ! (?i + 1)) = y ! (?i + 1)"
      by (intro hermite_right) simp
    then have h: "hermite x y m ?i (x ! (length x - 1)) = y ! (length x - 1)"
      by (simp only: i)
    have "?r ! 0 = Some (hermite x y m ?i ([x ! k] ! 0))"
      using assms(1,2) k by (intro piecewiseCubic_last_knot) simp_all
    then show ?thesis using h k by simp
  qed
  with singleton_nth [OF len] show ?thesis by simp
qed

lemma new_Pchip_Inr:
  assumes "new_Pchip x y = Inr p"
  shows "\<exists>dd. dpchim x y = Inr dd \<and> p = \<lparr>x_of = x, y_of = y, deriv_of = dd\<rparr>"
  using assms by (auto simp: new_Pchip_def split: sum.splits)

text \<open>
  \<^emph>\<open>In exact arithmetic\<close>, for valid knots and the slopes computed from them, evaluating
  at the abscissa of any knot, the first and the last included, gives the ordinate of
  that knot, through the interpolant object and through the wrapper alike. At the last
  knot the value is reached through the cubic of the last interval taken at its right
  end, a sum of several terms; the source rounds each of them in binary64, and the
  result can differ from the ordinate in the last digits. The lemma does not cover the
  rounded result.
\<close>

lemma knots_reproduced:
  assumes "new_Pchip x y = Inr p" "k < length x"
  shows "evaluate p (Scalar (x ! k)) = ScalarResult (Some (y ! k)) \<and>
         evaluate p (Sequence [x ! k]) = SequenceResult [Some (y ! k)] \<and>
         pchip x y [x ! k] = Inr [Some (y ! k)]"
proof -
  from new_Pchip_Inr [OF assms(1)] obtain dd where
    dd: "dpchim x y = Inr dd" and p: "p = \<lparr>x_of = x, y_of = y, deriv_of = dd\<rparr>" by blast
  from dd have "sorted_wrt (<) x" "2 \<le> length x" by (rule dpchim_Inr)+
  then have "piecewiseCubic x y dd [x ! k] = [Some (y ! k)]"
    using assms(2) by (rule piecewiseCubic_at_knot)
  then show ?thesis by (simp add: evaluate_def pchip_def p dd)
qed

lemma knots_reproduced_examples:
  "\<exists>p. new_Pchip [1, 2, 3, 4, 5] [1, 7, 11, 14, 28] = Inr p \<and>
       evaluate p (Scalar 3) = ScalarResult (Some 11) \<and>
       evaluate p (Scalar 1) = ScalarResult (Some 1) \<and>
       evaluate p (Scalar 5) = ScalarResult (Some 28)"
proof -
  let ?x = "[1, 2, 3, 4, 5 :: real]" and ?y = "[1, 7, 11, 14, 28 :: real]"
  let ?p = "\<lparr>x_of = ?x, y_of = ?y, deriv_of = [7, 24 / 5, 24 / 7, 84 / 17, 39 / 2]\<rparr>"
  have p: "new_Pchip ?x ?y = Inr ?p" by code_simp
  from knots_reproduced [OF p, of 2] knots_reproduced [OF p, of 0] knots_reproduced [OF p, of 4]
  have "evaluate ?p (Scalar 3) = ScalarResult (Some 11) \<and>
       evaluate ?p (Scalar 1) = ScalarResult (Some 1) \<and>
       evaluate ?p (Scalar 5) = ScalarResult (Some 28)"
    by simp
  with p show ?thesis by blast
qed

text \<open>
  The two paths of \<open>evaluate\<close>: an array of queries gives the whole result array, with
  one slot per query, and a single number gives one slot, which holds a number when the
  query lies within the range of the knots. The wrapper \<open>pchip\<close> has the array path
  only: it hands its third argument to \<open>piecewiseCubic\<close> as it is.
\<close>

lemma evaluate_paths:
  assumes "new_Pchip x y = Inr p"
  shows "(\<exists>r. evaluate p (Scalar q) = ScalarResult r) \<and>
         (x ! 0 \<le> q \<and> q \<le> x ! (length x - 1) \<longrightarrow>
            (\<exists>v. evaluate p (Scalar q) = ScalarResult (Some v))) \<and>
         (\<exists>rs. evaluate p (Sequence qs) = SequenceResult rs \<and> length rs = length qs) \<and>
         (\<exists>rs. pchip x y qs = Inr rs \<and> length rs = length qs)"
proof -
  from new_Pchip_Inr [OF assms] obtain dd where
    dd: "dpchim x y = Inr dd" and p: "p = \<lparr>x_of = x, y_of = y, deriv_of = dd\<rparr>" by blast
  from dd have x: "sorted_wrt (<) x" "2 \<le> length x" by (rule dpchim_Inr)+
  let ?r = "piecewiseCubic x y dd [q]"
  have len: "length ?r = 1" by (simp add: length_piecewiseCubic)
  from singleton_nth [OF len] obtain r0 where r: "?r = [r0]" by blast
  have scalar: "evaluate p (Scalar q) = ScalarResult (?r ! 0)"
    by (simp add: evaluate_def p r)
  have number: "\<exists>v. ?r ! 0 = Some v" if q: "x ! 0 \<le> q \<and> q \<le> x ! (length x - 1)"
  proof (cases "q < x ! (length x - 1)")
    case True
    with x q show ?thesis by (intro piecewiseCubic_in_range) simp_all
  next
    case False
    with q have "q = x ! (length x - 1)" by simp
    with x have "?r ! 0 = Some (hermite x y dd (length x - 2) ([q] ! 0))"
      by (intro piecewiseCubic_last_knot) simp_all
    then show ?thesis by blast
  qed
  have seq: "evaluate p (Sequence qs) = SequenceResult (piecewiseCubic x y dd qs)"
    by (simp add: evaluate_def p)
  have wrap: "pchip x y qs = Inr (piecewiseCubic x y dd qs)"
    by (simp add: pchip_def dd)
  from scalar number seq wrap show ?thesis
    by (simp add: length_piecewiseCubic)
qed

lemma evaluate_paths_examples:
  "\<exists>p. new_Pchip [1, 2, 3, 4, 5] [1, 7, 11, 14, 28] = Inr p \<and>
       evaluate p (Scalar 3) = ScalarResult (Some 11) \<and>
       evaluate p (Sequence [1, 42 / 10]) = SequenceResult [Some 1, Some (32862 / 2125)] \<and>
       pchip [1, 2, 3, 4, 5] [1, 7, 11, 14, 28] [1, 42 / 10] = Inr [Some 1, Some (32862 / 2125)] \<and>
       (\<exists>rs. pchip [1, 2, 3, 4, 5] [1, 7, 11, 14, 28] [1, 42 / 10] = Inr rs \<and> length rs = 2)"
proof -
  let ?x = "[1, 2, 3, 4, 5 :: real]" and ?y = "[1, 7, 11, 14, 28 :: real]"
  let ?p = "\<lparr>x_of = ?x, y_of = ?y, deriv_of = [7, 24 / 5, 24 / 7, 84 / 17, 39 / 2]\<rparr>"
  have p: "new_Pchip ?x ?y = Inr ?p" by code_simp
  have a: "evaluate ?p (Scalar 3) = ScalarResult (Some 11)" by code_simp
  have b: "evaluate ?p (Sequence [1, 42 / 10]) = SequenceResult [Some 1, Some (32862 / 2125)]"
    by code_simp
  have c: "pchip ?x ?y [1, 42 / 10] = Inr [Some 1, Some (32862 / 2125)]" by code_simp
  from evaluate_paths [OF p, of 3 "[1, 42 / 10]"]
  have "\<exists>rs. pchip ?x ?y [1, 42 / 10] = Inr rs \<and> length rs = 2" by auto
  with p a b c show ?thesis by blast
qed

end
